theory Spec2Isabelle
  imports Main "HOL-Library.Word"
begin

section \<open>Machine types and C arithmetic\<close>

text \<open>
  The driver only stores, copies and compares bytes, so a byte (\<^verbatim>\<open>uint8_t\<close>, and
  \<^verbatim>\<open>char\<close>, which is unsigned in the ARM ABI of the target) is a \<^typ>\<open>char\<close>.
  The ring indices are \<^verbatim>\<open>uint16_t\<close>, the tick counter is \<^verbatim>\<open>uint32_t\<close>.
  \<^verbatim>\<open>size_t\<close> values are lengths and positions of objects in memory; no computation on
  them in the source can overflow or underflow (each subtraction is guarded), so they
  are natural numbers.
\<close>

type_synonym uint8_t = char
type_synonym uint16_t = "16 word"
type_synonym uint32_t = "32 word"

text \<open>
  The operator \<^verbatim>\<open>%\<close> of C on \<^verbatim>\<open>int\<close>: division truncates towards zero, so the
  remainder has the sign of the dividend.  The index computations of the source are
  done in \<^verbatim>\<open>int\<close>, after integer promotion of the 16-bit fields.
\<close>

definition c_mod :: "int \<Rightarrow> int \<Rightarrow> int" where
  "c_mod a b = sgn a * (\<bar>a\<bar> mod \<bar>b\<bar>)"

text \<open>
  A \<^verbatim>\<open>const char *\<close> argument is modelled by \<open>None\<close> when it is \<^verbatim>\<open>NULL\<close> and
  otherwise by the bytes that precede its terminating NUL.  Reading \<^verbatim>\<open>str[i]\<close> at
  \<open>i = strlen str\<close> gives the terminator.
\<close>

definition NUL :: uint8_t where
  "NUL = CHR 0x00"

definition strlen :: "string \<Rightarrow> nat" where
  "strlen str = length str"

definition char_at :: "string \<Rightarrow> nat \<Rightarrow> uint8_t" where
  "char_at str i = (if i < length str then str ! i else NUL)"

section \<open>Configuration and types of the driver\<close>

definition UART_BUFFER_SIZE :: nat where
  "UART_BUFFER_SIZE = 1024"

definition DEFAULT_TIMEOUT_MS :: uint32_t where
  "DEFAULT_TIMEOUT_MS = 500"

datatype UART_ErrorTypeDef =
    UART_SUCCESS
  | UART_ERROR_TIMEOUT
  | UART_ERROR_BUFFER_FULL
  | UART_ERROR_BUFFER_EMPTY
  | UART_ERROR_INVALID_PARAM
  | UART_ERROR_NOT_FOUND

record RingBuffer_TypeDef =
  buffer :: "uint8_t list"
  head :: uint16_t
  tail :: uint16_t

text \<open>
  The state the driver works on: its three static variables, and the part of the
  platform it touches: the tick counter that \<^verbatim>\<open>HAL_GetTick\<close> reads, the two
  interrupt-enable bits of \<^verbatim>\<open>CR1\<close>, and the bytes written to the transmit data
  register (oldest first).
\<close>

record uart =
  rx_buffer :: RingBuffer_TypeDef
  tx_buffer :: RingBuffer_TypeDef
  timeout_start :: uint32_t
  uwTick :: uint32_t
  RXNEIE :: bool
  TXEIE :: bool
  TDR :: "uint8_t list"

section \<open>Ring buffer operations\<close>

definition StoreChar :: "uint8_t \<Rightarrow> RingBuffer_TypeDef \<Rightarrow> UART_ErrorTypeDef \<times> RingBuffer_TypeDef" where
  "StoreChar c b =
     (let next_head = (word_of_int (c_mod (uint (head b) + 1) (int UART_BUFFER_SIZE)) :: uint16_t)
      in if next_head = tail b then (UART_ERROR_BUFFER_FULL, b)
         else (UART_SUCCESS, b\<lparr>buffer := (buffer b)[unat (head b) := c], head := next_head\<rparr>))"

text \<open>
  An out-parameter \<^verbatim>\<open>uint8_t *c\<close> is \<open>None\<close> for \<^verbatim>\<open>NULL\<close> and otherwise the byte it
  points to; the function returns the byte it points to afterwards.
\<close>

definition UART_ReadChar :: "uint8_t option \<Rightarrow> uart \<Rightarrow> UART_ErrorTypeDef \<times> uint8_t option \<times> uart" where
  "UART_ReadChar c s =
     (if c = None then (UART_ERROR_INVALID_PARAM, c, s)
      else if head (rx_buffer s) = tail (rx_buffer s) then (UART_ERROR_BUFFER_EMPTY, c, s)
      else (UART_SUCCESS,
            Some (buffer (rx_buffer s) ! unat (tail (rx_buffer s))),
            s\<lparr>rx_buffer := (rx_buffer s)\<lparr>tail :=
                 word_of_int (c_mod (uint (tail (rx_buffer s)) + 1) (int UART_BUFFER_SIZE))\<rparr>\<rparr>))"

definition UART_Peek :: "uint8_t option \<Rightarrow> uart \<Rightarrow> UART_ErrorTypeDef \<times> uint8_t option" where
  "UART_Peek c s =
     (if c = None then (UART_ERROR_INVALID_PARAM, c)
      else if head (rx_buffer s) = tail (rx_buffer s) then (UART_ERROR_BUFFER_EMPTY, c)
      else (UART_SUCCESS, Some (buffer (rx_buffer s) ! unat (tail (rx_buffer s)))))"

definition UART_Available :: "uart \<Rightarrow> uint16_t" where
  "UART_Available s =
     word_of_int (c_mod (int UART_BUFFER_SIZE + uint (head (rx_buffer s)) - uint (tail (rx_buffer s)))
                        (int UART_BUFFER_SIZE))"

definition UART_FlushRX :: "uart \<Rightarrow> uart" where
  "UART_FlushRX s =
     s\<lparr>rx_buffer := \<lparr>buffer = replicate UART_BUFFER_SIZE NUL, head = 0, tail = 0\<rparr>\<rparr>"

definition UART_RingBuff_Init :: "uart \<Rightarrow> UART_ErrorTypeDef \<times> uart" where
  "UART_RingBuff_Init s =
     (UART_SUCCESS,
      s\<lparr>rx_buffer := \<lparr>buffer = replicate UART_BUFFER_SIZE NUL, head = 0, tail = 0\<rparr>,
        tx_buffer := \<lparr>buffer = replicate UART_BUFFER_SIZE NUL, head = 0, tail = 0\<rparr>,
        RXNEIE := True\<rparr>)"

section \<open>Timeout\<close>

definition HAL_GetTick :: "uart \<Rightarrow> uint32_t" where
  "HAL_GetTick s = uwTick s"

definition IsTimeOutExpired :: "uint32_t \<Rightarrow> uart \<Rightarrow> bool" where
  "IsTimeOutExpired timeout_ms s = (HAL_GetTick s - timeout_start s \<ge> timeout_ms)"

definition ResetTimeout :: "uart \<Rightarrow> uart" where
  "ResetTimeout s = s\<lparr>timeout_start := HAL_GetTick s\<rparr>"

section \<open>Interrupt handler and environment\<close>

text \<open>
  \<open>UART_ISR_Handler\<close> for the configured instance.  Its arguments are what it reads
  from the peripheral: whether \<^verbatim>\<open>ISR.RXNE\<close> is set, the content of \<^verbatim>\<open>RDR\<close>,
  and whether \<^verbatim>\<open>ISR.TXE\<close> is set.  The enable bits of \<^verbatim>\<open>CR1\<close> are read once,
  on entry.
\<close>

definition UART_ISR_Handler :: "bool \<Rightarrow> uint8_t \<Rightarrow> bool \<Rightarrow> uart \<Rightarrow> uart" where
  "UART_ISR_Handler rxne rdr txe s =
     (let rxneie = RXNEIE s; txeie = TXEIE s;
          s1 = (if rxne \<and> rxneie then s\<lparr>rx_buffer := snd (StoreChar rdr (rx_buffer s))\<rparr> else s)
      in if txe \<and> txeie then
           (if head (tx_buffer s1) = tail (tx_buffer s1) then s1\<lparr>TXEIE := False\<rparr>
            else s1\<lparr>tx_buffer := (tx_buffer s1)\<lparr>tail :=
                       word_of_int (c_mod (uint (tail (tx_buffer s1)) + 1) (int UART_BUFFER_SIZE))\<rparr>,
                    TDR := TDR s1 @ [buffer (tx_buffer s1) ! unat (tail (tx_buffer s1))]\<rparr>)
         else s1)"

text \<open>
  What happens outside the foreground code: the tick interrupt advances the counter by
  one millisecond, or the UART interrupt runs the handler.  The foreground functions
  take the list of events still to come.  One event happens each time a busy-wait loop
  goes round; the rest of the foreground code takes no time.  A busy-wait that is left
  with no event to come has no result (\<open>None\<close>).
\<close>

datatype event = SysTick | IRQ bool uint8_t bool

fun occur :: "event \<Rightarrow> uart \<Rightarrow> uart" where
  "occur SysTick s = s\<lparr>uwTick := uwTick s + 1\<rparr>"
| "occur (IRQ rxne rdr txe) s = UART_ISR_Handler rxne rdr txe s"

section \<open>Blocking transmit\<close>

text \<open>
  The busy-wait of \<open>UART_WriteChar\<close>: \<open>True\<close> when the loop is left because there is
  room, \<open>False\<close> when it is left by the \<^verbatim>\<open>return\<close> on expiry.
\<close>

fun UART_WriteChar_wait :: "uint16_t \<Rightarrow> uart \<Rightarrow> event list \<Rightarrow> (bool \<times> uart \<times> event list) option" where
  "UART_WriteChar_wait next_head s env =
     (if next_head = tail (tx_buffer s) then
        (if IsTimeOutExpired DEFAULT_TIMEOUT_MS s then Some (False, s, env)
         else (case env of [] \<Rightarrow> None
               | e # env' \<Rightarrow> UART_WriteChar_wait next_head (occur e s) env'))
      else Some (True, s, env))"

declare UART_WriteChar_wait.simps [simp del]

definition UART_WriteChar :: "uint8_t \<Rightarrow> uart \<Rightarrow> event list \<Rightarrow> (UART_ErrorTypeDef \<times> uart \<times> event list) option" where
  "UART_WriteChar c s env =
     (let next_head = (word_of_int (c_mod (uint (head (tx_buffer s)) + 1) (int UART_BUFFER_SIZE)) :: uint16_t)
      in case UART_WriteChar_wait next_head (ResetTimeout s) env of
           None \<Rightarrow> None
         | Some (room, s1, env1) \<Rightarrow>
             if \<not> room then Some (UART_ERROR_TIMEOUT, s1, env1)
             else Some (UART_SUCCESS,
                        s1\<lparr>tx_buffer := (tx_buffer s1)\<lparr>buffer := (buffer (tx_buffer s1))[unat (head (tx_buffer s1)) := c],
                                                         head := next_head\<rparr>,
                           TXEIE := True\<rparr>,
                        env1))"

fun UART_SendString_loop :: "string \<Rightarrow> uart \<Rightarrow> event list \<Rightarrow> (UART_ErrorTypeDef \<times> uart \<times> event list) option" where
  "UART_SendString_loop [] s env = Some (UART_SUCCESS, s, env)"
| "UART_SendString_loop (c # str) s env =
     (case UART_WriteChar c s env of
        None \<Rightarrow> None
      | Some (result, s1, env1) \<Rightarrow>
          if result \<noteq> UART_SUCCESS then Some (result, s1, env1)
          else UART_SendString_loop str s1 env1)"

definition UART_SendString :: "string option \<Rightarrow> uart \<Rightarrow> event list \<Rightarrow> (UART_ErrorTypeDef \<times> uart \<times> event list) option" where
  "UART_SendString str s env =
     (case str of
        None \<Rightarrow> Some (UART_ERROR_INVALID_PARAM, s, env)
      | Some str' \<Rightarrow> UART_SendString_loop str' s env)"

section \<open>Waiting for received data\<close>

fun WaitForData_loop :: "uint32_t \<Rightarrow> uart \<Rightarrow> event list \<Rightarrow> (UART_ErrorTypeDef \<times> uart \<times> event list) option" where
  "WaitForData_loop timeout_ms s env =
     (if UART_Available s = 0 then
        (if IsTimeOutExpired timeout_ms s then Some (UART_ERROR_TIMEOUT, s, env)
         else (case env of [] \<Rightarrow> None
               | e # env' \<Rightarrow> WaitForData_loop timeout_ms (occur e s) env'))
      else Some (UART_SUCCESS, s, env))"

declare WaitForData_loop.simps [simp del]

definition WaitForData :: "uint32_t \<Rightarrow> uart \<Rightarrow> event list \<Rightarrow> (UART_ErrorTypeDef \<times> uart \<times> event list) option" where
  "WaitForData timeout_ms s env = WaitForData_loop timeout_ms (ResetTimeout s) env"

section \<open>Streaming operations\<close>

text \<open>
  The loop of \<open>UART_WaitForString\<close>, with its local \<open>match_pos\<close> as an argument.  The
  local \<^verbatim>\<open>uint8_t c\<close> is not initialised; it is read only after \<open>UART_ReadChar\<close> has
  written it.
\<close>

function UART_WaitForString_loop ::
  "string \<Rightarrow> uint32_t \<Rightarrow> nat \<Rightarrow> uart \<Rightarrow> event list \<Rightarrow> (UART_ErrorTypeDef \<times> uart \<times> event list) option" where
  "UART_WaitForString_loop str timeout_ms match_pos s env =
     (if match_pos < strlen str then
        (case WaitForData timeout_ms s env of
           None \<Rightarrow> None
         | Some (r, s1, env1) \<Rightarrow>
             if r \<noteq> UART_SUCCESS then Some (UART_ERROR_TIMEOUT, s1, env1)
             else (case UART_ReadChar (Some NUL) s1 of
                     (r2, cp, s2) \<Rightarrow>
                       if r2 \<noteq> UART_SUCCESS then UART_WaitForString_loop str timeout_ms match_pos s2 env1
                       else
                         (let c = the cp;
                              match_pos1 = (if c = char_at str match_pos then match_pos + 1
                                            else if c = char_at str 0 then 1
                                            else 0);
                              s3 = (if match_pos1 > 0 then ResetTimeout s2 else s2)
                          in UART_WaitForString_loop str timeout_ms match_pos1 s3 env1)))
      else Some (UART_SUCCESS, s, env))"
  by pat_completeness auto

definition UART_WaitForString :: "string option \<Rightarrow> uint32_t \<Rightarrow> uart \<Rightarrow> event list \<Rightarrow> (UART_ErrorTypeDef \<times> uart \<times> event list) option" where
  "UART_WaitForString str timeout_ms s env =
     (case str of
        None \<Rightarrow> Some (UART_ERROR_INVALID_PARAM, s, env)
      | Some str' \<Rightarrow>
          if strlen str' = 0 then Some (UART_ERROR_INVALID_PARAM, s, env)
          else UART_WaitForString_loop str' timeout_ms 0 (ResetTimeout s) env)"

text \<open>
  The loop of \<open>UART_CopyUntil\<close>, with the destination memory and the locals
  \<open>buffer_pos\<close> and \<open>match_pos\<close> as arguments.  The destination is the list of the bytes
  at \<^verbatim>\<open>buffer\<close>; a write beyond that list would be lost in the model, so the theorems
  below assume that the list has at least \<open>buffer_size\<close> bytes.
\<close>

function UART_CopyUntil_loop ::
  "string \<Rightarrow> uint8_t list \<Rightarrow> nat \<Rightarrow> uint32_t \<Rightarrow> nat \<Rightarrow> nat \<Rightarrow> uart \<Rightarrow> event list
     \<Rightarrow> (UART_ErrorTypeDef \<times> uint8_t list \<times> uart \<times> event list) option" where
  "UART_CopyUntil_loop end_str buf buffer_size timeout_ms buffer_pos match_pos s env =
     (if buffer_pos < buffer_size - 1 then
        (case WaitForData timeout_ms s env of
           None \<Rightarrow> None
         | Some (r, s1, env1) \<Rightarrow>
             if r \<noteq> UART_SUCCESS then Some (UART_ERROR_TIMEOUT, buf, s1, env1)
             else (case UART_ReadChar (Some NUL) s1 of
                     (r2, cp, s2) \<Rightarrow>
                       if r2 \<noteq> UART_SUCCESS
                       then UART_CopyUntil_loop end_str buf buffer_size timeout_ms buffer_pos match_pos s2 env1
                       else
                         (let c = the cp;
                              buf1 = buf[buffer_pos := c];
                              buffer_pos1 = buffer_pos + 1
                          in if c = char_at end_str match_pos then
                               (let match_pos1 = match_pos + 1
                                in if match_pos1 = strlen end_str
                                   then Some (UART_SUCCESS, buf1[buffer_pos1 := NUL], s2, env1)
                                   else UART_CopyUntil_loop end_str buf1 buffer_size timeout_ms buffer_pos1 match_pos1 s2 env1)
                             else if c = char_at end_str 0
                             then UART_CopyUntil_loop end_str buf1 buffer_size timeout_ms buffer_pos1 1 s2 env1
                             else UART_CopyUntil_loop end_str buf1 buffer_size timeout_ms buffer_pos1 0 s2 env1)))
      else Some (UART_ERROR_BUFFER_FULL, buf[buffer_pos := NUL], s, env))"
  by pat_completeness auto

definition UART_CopyUntil ::
  "string option \<Rightarrow> uint8_t list option \<Rightarrow> nat \<Rightarrow> uint32_t \<Rightarrow> uart \<Rightarrow> event list
     \<Rightarrow> (UART_ErrorTypeDef \<times> uint8_t list option \<times> uart \<times> event list) option" where
  "UART_CopyUntil end_str buf buffer_size timeout_ms s env =
     (case (end_str, buf) of
        (Some end_str', Some buf') \<Rightarrow>
          if buffer_size = 0 then Some (UART_ERROR_INVALID_PARAM, buf, s, env)
          else (case UART_CopyUntil_loop end_str' buf' buffer_size timeout_ms 0 0 (ResetTimeout s) env of
                  None \<Rightarrow> None
                | Some (r, buf1, s1, env1) \<Rightarrow> Some (r, Some buf1, s1, env1))
      | _ \<Rightarrow> Some (UART_ERROR_INVALID_PARAM, buf, s, env))"

section \<open>Searching a captured buffer\<close>

text \<open>
  \<^verbatim>\<open>memcmp\<close> and \<^verbatim>\<open>memcpy\<close> of the C library, on the bytes at their pointer arguments.
  The source calls them inside the objects only.
\<close>

fun memcmp :: "uint8_t list \<Rightarrow> uint8_t list \<Rightarrow> nat \<Rightarrow> int" where
  "memcmp (x # a) (y # b) (Suc n) =
     (if x = y then memcmp a b n else int (of_char x) - int (of_char y))"
| "memcmp a b n = 0"

definition memcpy :: "uint8_t list \<Rightarrow> uint8_t list \<Rightarrow> nat \<Rightarrow> uint8_t list" where
  "memcpy dest src n = take n src @ drop n dest"

text \<open>
  The \<^verbatim>\<open>for\<close> loop of \<open>FindStringInBuffer\<close>, with its counter as an argument.  The
  result \<^verbatim>\<open>SIZE_MAX\<close>, which is the position of no byte, is \<open>None\<close>.
\<close>

function FindStringInBuffer_loop :: "string \<Rightarrow> uint8_t list \<Rightarrow> nat \<Rightarrow> nat \<Rightarrow> nat option" where
  "FindStringInBuffer_loop str buf buffer_len i =
     (if i \<le> buffer_len - strlen str then
        (if memcmp (drop i buf) str (strlen str) = 0 then Some i
         else FindStringInBuffer_loop str buf buffer_len (i + 1))
      else None)"
  by pat_completeness auto
termination
  by (relation "measure (\<lambda>(str, buf, buffer_len, i). Suc (buffer_len - strlen str) - i)") auto

declare FindStringInBuffer_loop.simps [simp del]

definition FindStringInBuffer :: "string option \<Rightarrow> uint8_t list option \<Rightarrow> nat \<Rightarrow> nat option" where
  "FindStringInBuffer str buf buffer_len =
     (case (str, buf) of
        (Some str', Some buf') \<Rightarrow>
          if strlen str' = 0 \<or> strlen str' > buffer_len then None
          else FindStringInBuffer_loop str' buf' buffer_len 0
      | _ \<Rightarrow> None)"

definition UART_ExtractBetween ::
  "string option \<Rightarrow> string option \<Rightarrow> string option \<Rightarrow> uint8_t list option \<Rightarrow> nat
     \<Rightarrow> UART_ErrorTypeDef \<times> uint8_t list option" where
  "UART_ExtractBetween start_str end_str source dest dest_size =
     (case (start_str, end_str, source, dest) of
        (Some start_str', Some end_str', Some source', Some dest') \<Rightarrow>
          if dest_size = 0 then (UART_ERROR_INVALID_PARAM, dest)
          else
            (let source_len = strlen source'
             in case FindStringInBuffer start_str source source_len of
                  None \<Rightarrow> (UART_ERROR_NOT_FOUND, dest)
                | Some found \<Rightarrow>
                    (let start_pos = found + strlen start_str'
                     in case FindStringInBuffer end_str (Some (drop start_pos source')) (source_len - start_pos) of
                          None \<Rightarrow> (UART_ERROR_NOT_FOUND, dest)
                        | Some found_end \<Rightarrow>
                            (let end_pos = found_end + start_pos;
                                 copy_len = end_pos - start_pos;
                                 copy_len1 = (if copy_len \<ge> dest_size then dest_size - 1 else copy_len)
                             in (UART_SUCCESS, Some ((memcpy dest' (drop start_pos source') copy_len1)[copy_len1 := NUL])))))
      | _ \<Rightarrow> (UART_ERROR_INVALID_PARAM, dest))"

section \<open>Specification devices\<close>

text \<open>
  The state at power-on: the static variables are zero-initialised, no interrupt source
  is enabled yet.
\<close>

definition power_on :: uart where
  "power_on =
     \<lparr>rx_buffer = \<lparr>buffer = replicate UART_BUFFER_SIZE NUL, head = 0, tail = 0\<rparr>,
      tx_buffer = \<lparr>buffer = replicate UART_BUFFER_SIZE NUL, head = 0, tail = 0\<rparr>,
      timeout_start = 0, uwTick = 0, RXNEIE = False, TXEIE = False, TDR = []\<rparr>"

text \<open>
  The invariant of a ring buffer (the array has its declared size and both indices are
  inside it), the number of unread bytes, and the unread bytes, oldest first.
\<close>

definition rb_inv :: "RingBuffer_TypeDef \<Rightarrow> bool" where
  "rb_inv b \<longleftrightarrow> length (buffer b) = UART_BUFFER_SIZE \<and> unat (head b) < UART_BUFFER_SIZE \<and> unat (tail b) < UART_BUFFER_SIZE"

definition rb_count :: "RingBuffer_TypeDef \<Rightarrow> nat" where
  "rb_count b = (UART_BUFFER_SIZE + unat (head b) - unat (tail b)) mod UART_BUFFER_SIZE"

definition rb_contents :: "RingBuffer_TypeDef \<Rightarrow> uint8_t list" where
  "rb_contents b = map (\<lambda>i. buffer b ! ((unat (tail b) + i) mod UART_BUFFER_SIZE)) [0..<rb_count b]"

text \<open>
  A test harness for the receive ring: a byte is pushed as the interrupt handler does
  it (\<open>StoreChar\<close> on \<open>rx_buffer\<close>), and popped by \<open>UART_ReadChar\<close>.  After each
  operation it records the status, the byte popped, and what \<open>UART_Available\<close> returns.
\<close>

datatype rb_op = Push uint8_t | Pop

fun run_ops :: "uart \<Rightarrow> rb_op list \<Rightarrow> (UART_ErrorTypeDef \<times> uint8_t option \<times> nat) list" where
  "run_ops s [] = []"
| "run_ops s (Push c # ops) =
     (case StoreChar c (rx_buffer s) of
        (r, b) \<Rightarrow> (r, None, unat (UART_Available (s\<lparr>rx_buffer := b\<rparr>))) # run_ops (s\<lparr>rx_buffer := b\<rparr>) ops)"
| "run_ops s (Pop # ops) =
     (case UART_ReadChar (Some NUL) s of
        (r, c, s1) \<Rightarrow> (r, if r = UART_SUCCESS then c else None, unat (UART_Available s1)) # run_ops s1 ops)"

text \<open>
  The first-in first-out queue of the specification: the list of the bytes pushed and not
  yet popped.  \<open>within_capacity n ops\<close> says that \<open>ops\<close>, started with \<open>n\<close> pending bytes,
  never has more than \<open>UART_BUFFER_SIZE - 1\<close> bytes pending.
\<close>

fun fifo_ops :: "uint8_t list \<Rightarrow> rb_op list \<Rightarrow> (UART_ErrorTypeDef \<times> uint8_t option \<times> nat) list" where
  "fifo_ops q [] = []"
| "fifo_ops q (Push c # ops) = (UART_SUCCESS, None, length (q @ [c])) # fifo_ops (q @ [c]) ops"
| "fifo_ops [] (Pop # ops) = (UART_ERROR_BUFFER_EMPTY, None, 0) # fifo_ops [] ops"
| "fifo_ops (x # q) (Pop # ops) = (UART_SUCCESS, Some x, length q) # fifo_ops q ops"

fun within_capacity :: "nat \<Rightarrow> rb_op list \<Rightarrow> bool" where
  "within_capacity n [] = True"
| "within_capacity n (Push c # ops) = (n + 1 \<le> UART_BUFFER_SIZE - 1 \<and> within_capacity (n + 1) ops)"
| "within_capacity n (Pop # ops) = within_capacity (n - 1) ops"

text \<open>
  Literal substring search, as the specification has it: \<open>str\<close> occurs in \<open>buf\<close> at
  position \<open>i\<close>, and \<open>i\<close> is the first such position.
\<close>

definition occurs_at :: "string \<Rightarrow> uint8_t list \<Rightarrow> nat \<Rightarrow> bool" where
  "occurs_at str buf i \<longleftrightarrow> i + length str \<le> length buf \<and> take (length str) (drop i buf) = str"

definition first_at :: "string \<Rightarrow> uint8_t list \<Rightarrow> nat \<Rightarrow> bool" where
  "first_at str buf i \<longleftrightarrow> occurs_at str buf i \<and> (\<forall>k<i. \<not> occurs_at str buf k)"

text \<open>
  True time for the tick counter: after \<open>n\<close> milliseconds it reads \<open>of_nat n\<close>.
  \<open>wraps S T\<close> is the number of times it wraps between the times \<open>S\<close> and \<open>T\<close>, and
  \<open>elapsed_reading s S T\<close> is the state in which \<open>ResetTimeout\<close> ran at time \<open>S\<close> and the
  time is now \<open>T\<close>.
\<close>

definition wraps :: "nat \<Rightarrow> nat \<Rightarrow> nat" where
  "wraps S T = T div 2 ^ 32 - S div 2 ^ 32"

definition elapsed_reading :: "uart \<Rightarrow> nat \<Rightarrow> nat \<Rightarrow> uart" where
  "elapsed_reading s S T = (ResetTimeout (s\<lparr>uwTick := of_nat S\<rparr>))\<lparr>uwTick := of_nat T\<rparr>"

text \<open>
  The streaming matcher of the specification: \<open>feed P m c\<close> is the match length after
  the byte \<open>c\<close> is fed in the state \<open>m < length P\<close>, and \<open>fed P m cs\<close> the match length after
  the bytes \<open>cs\<close>.
\<close>

definition feed :: "string \<Rightarrow> nat \<Rightarrow> uint8_t \<Rightarrow> nat" where
  "feed P m c = (if c = P ! m then m + 1 else if c = P ! 0 then 1 else 0)"

definition fed :: "string \<Rightarrow> nat \<Rightarrow> uint8_t list \<Rightarrow> nat" where
  "fed P m cs = foldl (feed P) m cs"

text \<open>
  \<open>receive timeout_ms n s env\<close>: the next \<open>n\<close> bytes are taken from the receive ring as
  the streaming operations take them (\<open>WaitForData\<close>, then \<open>UART_ReadChar\<close>), each
  arriving before its wait expires.  The result is these bytes, the state and the events
  left; there is none when a wait expires or the events run out.
\<close>

fun receive :: "uint32_t \<Rightarrow> nat \<Rightarrow> uart \<Rightarrow> event list \<Rightarrow> (uint8_t list \<times> uart \<times> event list) option" where
  "receive timeout_ms 0 s env = Some ([], s, env)"
| "receive timeout_ms (Suc n) s env =
     (case WaitForData timeout_ms s env of
        None \<Rightarrow> None
      | Some (r, s1, env1) \<Rightarrow>
          if r \<noteq> UART_SUCCESS then None
          else (case UART_ReadChar (Some NUL) s1 of
                  (r2, cp, s2) \<Rightarrow>
                    (case receive timeout_ms n s2 env1 of
                       None \<Rightarrow> None
                     | Some (cs, s3, env3) \<Rightarrow> Some (the cp # cs, s3, env3))))"

text \<open>
  The state after initialisation in which the interrupt handler has stored the bytes
  \<open>bs\<close> and none has been read; and \<open>poke buf pos cs\<close>, the memory \<open>buf\<close> after the bytes
  \<open>cs\<close> are written one by one from position \<open>pos\<close>.
\<close>

definition rx_holding :: "uint8_t list \<Rightarrow> uart" where
  "rx_holding bs =
     power_on\<lparr>rx_buffer := \<lparr>buffer = bs @ replicate (UART_BUFFER_SIZE - length bs) NUL,
                             head = of_nat (length bs), tail = 0\<rparr>, RXNEIE := True\<rparr>"

fun poke :: "uint8_t list \<Rightarrow> nat \<Rightarrow> uint8_t list \<Rightarrow> uint8_t list" where
  "poke buf pos [] = buf"
| "poke buf pos (c # cs) = poke (buf[pos := c]) (pos + 1) cs"

text \<open>
  The events of a trickle: before each byte of \<open>cs\<close> is received by the interrupt
  handler, \<open>d\<close> milliseconds pass.
\<close>

definition trickle :: "nat \<Rightarrow> uint8_t list \<Rightarrow> event list" where
  "trickle d cs = concat (map (\<lambda>c. replicate d SysTick @ [IRQ True c False]) cs)"

section \<open>Index arithmetic\<close>

lemma c_mod_nonneg: "0 \<le> a \<Longrightarrow> 0 < b \<Longrightarrow> c_mod a b = a mod b"
  by (simp add: c_mod_def sgn_if)

lemma c_mod_neg: "a < 0 \<Longrightarrow> 0 < b \<Longrightarrow> c_mod a b = - ((- a) mod b)"
  by (simp add: c_mod_def sgn_if)

lemma ring_diff:
  fixes h t n :: nat
  assumes "h < n" "t < n"
  shows "(n + h - t) mod n = (if t \<le> h then h - t else n + h - t)"
proof (cases "t \<le> h")
  case True
  with assms have "n \<le> n + h - t" "n + h - t - n = h - t" "h - t < n" by simp_all
  then show ?thesis using True by (simp add: le_mod_geq)
next
  case False
  with assms have "n + h - t < n" by simp
  then show ?thesis using False by simp
qed

lemma ring_add:
  fixes t i n :: nat
  shows "t < n \<Longrightarrow> i < n \<Longrightarrow> (t + i) mod n = (if t + i < n then t + i else t + i - n)"
  by (simp add: mod_if)

lemma buffer_size_pos: "0 < UART_BUFFER_SIZE" "1 < UART_BUFFER_SIZE"
  by (simp_all add: UART_BUFFER_SIZE_def)

lemma small_nat_word: "k < UART_BUFFER_SIZE \<Longrightarrow> unat (word_of_int (int k) :: uint16_t) = k"
  by (simp add: UART_BUFFER_SIZE_def unat_of_nat)

lemma next_index:
  fixes x :: uint16_t
  shows "unat (word_of_int (c_mod (uint x + 1) (int UART_BUFFER_SIZE)) :: uint16_t) = (unat x + 1) mod UART_BUFFER_SIZE"
proof -
  have "uint x + 1 = int (unat x + 1)" by simp
  then have "c_mod (uint x + 1) (int UART_BUFFER_SIZE) = int ((unat x + 1) mod UART_BUFFER_SIZE)"
    by (simp only: zmod_int) (simp add: c_mod_nonneg UART_BUFFER_SIZE_def)
  moreover have "(unat x + 1) mod UART_BUFFER_SIZE < UART_BUFFER_SIZE"
    by (simp add: UART_BUFFER_SIZE_def) 
  ultimately show ?thesis
    by (simp only: small_nat_word)
qed

lemma avail_unat:
  assumes "unat (tail (rx_buffer s)) < UART_BUFFER_SIZE"
  shows "unat (UART_Available s) = rb_count (rx_buffer s)"
proof -
  let ?h = "unat (head (rx_buffer s))" and ?t = "unat (tail (rx_buffer s))"
  have "int UART_BUFFER_SIZE + uint (head (rx_buffer s)) - uint (tail (rx_buffer s)) = int (UART_BUFFER_SIZE + ?h - ?t)"
    using assms by (simp add: of_nat_diff)
  then have "c_mod (int UART_BUFFER_SIZE + uint (head (rx_buffer s)) - uint (tail (rx_buffer s))) (int UART_BUFFER_SIZE)
     = int ((UART_BUFFER_SIZE + ?h - ?t) mod UART_BUFFER_SIZE)"
    by (simp only: zmod_int) (simp add: c_mod_nonneg UART_BUFFER_SIZE_def)
  moreover have "(UART_BUFFER_SIZE + ?h - ?t) mod UART_BUFFER_SIZE < UART_BUFFER_SIZE"
    by (simp add: UART_BUFFER_SIZE_def)
  ultimately show ?thesis
    unfolding UART_Available_def rb_count_def by (simp only: small_nat_word)
qed

lemma rb_count_alt:
  "rb_inv b \<Longrightarrow> rb_count b = (if unat (tail b) \<le> unat (head b) then unat (head b) - unat (tail b)
      else UART_BUFFER_SIZE + unat (head b) - unat (tail b))"
  unfolding rb_inv_def rb_count_def by (simp only: ring_diff)

lemma rb_count_0_iff: "rb_inv b \<Longrightarrow> rb_count b = 0 \<longleftrightarrow> head b = tail b"
  by (auto simp: rb_count_alt word_unat_eq_iff rb_inv_def)

lemma rb_count_lt: "rb_count b < UART_BUFFER_SIZE"
  by (simp add: rb_count_def UART_BUFFER_SIZE_def)

lemma next_index_alt:
  fixes x :: uint16_t
  assumes "unat x < UART_BUFFER_SIZE"
  shows "unat (word_of_int (c_mod (uint x + 1) (int UART_BUFFER_SIZE)) :: uint16_t)
           = (if unat x + 1 < UART_BUFFER_SIZE then unat x + 1 else 0)"
proof (cases "unat x + 1 < UART_BUFFER_SIZE")
  case True
  then show ?thesis by (simp only: next_index) simp
next
  case False
  with assms have "unat x + 1 = UART_BUFFER_SIZE" by simp
  then have "(unat x + 1) mod UART_BUFFER_SIZE = 0" by simp
  then show ?thesis using False by (simp only: next_index) simp
qed

lemma StoreChar_full:
  assumes "rb_inv b" "rb_count b = UART_BUFFER_SIZE - 1"
  shows "StoreChar c b = (UART_ERROR_BUFFER_FULL, b)"
proof -
  have "unat (word_of_int (c_mod (uint (head b) + 1) (int UART_BUFFER_SIZE)) :: uint16_t) = unat (tail b)"
    using assms buffer_size_pos by (simp add: next_index_alt rb_count_alt rb_inv_def split: if_splits; arith)
  then have "(word_of_int (c_mod (uint (head b) + 1) (int UART_BUFFER_SIZE)) :: uint16_t) = tail b"
    by (simp only: word_unat_eq_iff)
  then show ?thesis by (simp add: StoreChar_def)
qed

lemma StoreChar_room:
  assumes "rb_inv b" "rb_count b < UART_BUFFER_SIZE - 1"
  shows "\<exists>b'. StoreChar c b = (UART_SUCCESS, b') \<and> rb_inv b' \<and> rb_contents b' = rb_contents b @ [c]"
proof -
  let ?nh = "word_of_int (c_mod (uint (head b) + 1) (int UART_BUFFER_SIZE)) :: uint16_t"
  let ?b' = "b\<lparr>buffer := (buffer b)[unat (head b) := c], head := ?nh\<rparr>"
  have hN: "unat (head b) < UART_BUFFER_SIZE" and tN: "unat (tail b) < UART_BUFFER_SIZE"
    and len: "length (buffer b) = UART_BUFFER_SIZE"
    using assms(1) by (simp_all add: rb_inv_def)
  have nh: "unat ?nh = (if unat (head b) + 1 < UART_BUFFER_SIZE then unat (head b) + 1 else 0)"
    using hN by (rule next_index_alt)
  have ne: "unat ?nh \<noteq> unat (tail b)"
    using assms(2) hN tN by (simp add: nh rb_count_alt [OF assms(1)] split: if_splits; arith)
  then have "?nh \<noteq> tail b" by auto
  then have st: "StoreChar c b = (UART_SUCCESS, ?b')" by (simp add: StoreChar_def Let_def)
  have inv: "rb_inv ?b'" using hN tN len buffer_size_pos by (simp add: rb_inv_def nh)
  have cnt: "rb_count ?b' = rb_count b + 1"
    using assms(2) hN tN by (simp add: rb_count_alt [OF inv] rb_count_alt [OF assms(1)] nh split: if_splits; arith)
  have hd_pos: "(unat (tail b) + rb_count b) mod UART_BUFFER_SIZE = unat (head b)"
    using hN tN rb_count_lt [of b] by (simp add: ring_add) (simp add: rb_count_alt [OF assms(1)] split: if_splits; arith)
  have other: "unat (head b) \<noteq> (unat (tail b) + i) mod UART_BUFFER_SIZE" if "i < rb_count b" for i
  proof -
    have "i < UART_BUFFER_SIZE" using that rb_count_lt [of b] by simp
    then show ?thesis
      using that hN tN by (simp add: ring_add) (simp add: rb_count_alt [OF assms(1)] split: if_splits; arith)
  qed
  have "rb_contents ?b' = rb_contents b @ [c]"
    using len hN other hd_pos
    by (simp add: rb_contents_def cnt)
  with st inv show ?thesis by blast
qed

lemma rb_contents_length: "length (rb_contents b) = rb_count b"
  by (simp add: rb_contents_def)

lemma ReadChar_empty:
  assumes "rb_inv (rx_buffer s)" "rb_contents (rx_buffer s) = []"
  shows "UART_ReadChar (Some c0) s = (UART_ERROR_BUFFER_EMPTY, Some c0, s)"
proof -
  have "rb_count (rx_buffer s) = 0" using assms(2) rb_contents_length [of "rx_buffer s"] by simp
  then have "head (rx_buffer s) = tail (rx_buffer s)" using assms(1) by (simp add: rb_count_0_iff)
  then show ?thesis by (simp add: UART_ReadChar_def)
qed

lemma ReadChar_nonempty:
  assumes "rb_inv (rx_buffer s)" "rb_contents (rx_buffer s) = x # xs"
  shows "\<exists>b'. UART_ReadChar (Some c0) s = (UART_SUCCESS, Some x, s\<lparr>rx_buffer := b'\<rparr>)
            \<and> rb_inv b' \<and> rb_contents b' = xs"
proof -
  let ?b = "rx_buffer s"
  let ?nt = "word_of_int (c_mod (uint (tail ?b) + 1) (int UART_BUFFER_SIZE)) :: uint16_t"
  let ?b' = "?b\<lparr>tail := ?nt\<rparr>"
  have hN: "unat (head ?b) < UART_BUFFER_SIZE" and tN: "unat (tail ?b) < UART_BUFFER_SIZE"
    and len: "length (buffer ?b) = UART_BUFFER_SIZE"
    using assms(1) by (simp_all add: rb_inv_def)
  have cnt: "rb_count ?b = Suc (length xs)"
    using assms(2) rb_contents_length [of ?b] by simp
  then have "rb_count ?b \<noteq> 0" by simp
  then have ne: "head ?b \<noteq> tail ?b" using assms(1) by (simp add: rb_count_0_iff)
  have nt: "unat ?nt = (if unat (tail ?b) + 1 < UART_BUFFER_SIZE then unat (tail ?b) + 1 else 0)"
    using tN by (rule next_index_alt)
  have inv: "rb_inv ?b'" using hN tN len buffer_size_pos by (simp add: rb_inv_def nt)
  have cnt': "rb_count ?b' = length xs"
    using cnt hN tN by (simp add: rb_count_alt [OF inv] rb_count_alt [OF assms(1)] nt split: if_splits; arith)
  have x: "x = buffer ?b ! unat (tail ?b)"
  proof -
    have "hd (rb_contents ?b) = buffer ?b ! ((unat (tail ?b) + 0) mod UART_BUFFER_SIZE)"
      by (simp add: rb_contents_def cnt upt_conv_Cons del: upt_Suc)
    then show ?thesis using assms(2) tN by simp
  qed
  have shift: "(unat ?nt + i) mod UART_BUFFER_SIZE = (unat (tail ?b) + Suc i) mod UART_BUFFER_SIZE" for i
  proof (cases "unat (tail ?b) + 1 < UART_BUFFER_SIZE")
    case True then show ?thesis by (simp add: nt)
  next
    case False
    then have "unat (tail ?b) + 1 = UART_BUFFER_SIZE" using tN by simp
    then have "unat (tail ?b) + Suc i = i + UART_BUFFER_SIZE" by simp
    then have "(unat (tail ?b) + Suc i) mod UART_BUFFER_SIZE = i mod UART_BUFFER_SIZE"
      by (simp only: mod_add_self2)
    moreover have "unat ?nt = 0" using False by (simp add: nt)
    ultimately show ?thesis by simp
  qed
  have "rb_contents ?b' = map (\<lambda>i. buffer ?b ! ((unat (tail ?b) + Suc i) mod UART_BUFFER_SIZE)) [0..<length xs]"
    by (simp add: rb_contents_def cnt' shift)
  also have "\<dots> = tl (rb_contents ?b)"
    by (simp add: rb_contents_def cnt map_Suc_upt [symmetric] upt_conv_Cons del: upt_Suc)
  finally have "rb_contents ?b' = xs" using assms(2) by simp
  moreover have "UART_ReadChar (Some c0) s = (UART_SUCCESS, Some x, s\<lparr>rx_buffer := ?b'\<rparr>)"
    using ne x by (simp add: UART_ReadChar_def)
  ultimately show ?thesis using inv by blast
qed

lemma Available_ResetTimeout [simp]: "UART_Available (ResetTimeout s) = UART_Available s"
  by (simp add: UART_Available_def ResetTimeout_def)

lemma Available_nonzero_not_empty:
  assumes "UART_Available s \<noteq> 0"
  shows "head (rx_buffer s) \<noteq> tail (rx_buffer s)"
proof
  assume "head (rx_buffer s) = tail (rx_buffer s)"
  then have "UART_Available s = 0"
    by (simp add: UART_Available_def c_mod_def UART_BUFFER_SIZE_def)
  with assms show False by simp
qed

lemma ReadChar_Available:
  assumes "UART_Available s \<noteq> 0"
  shows "UART_ReadChar (Some c0) s =
           (UART_SUCCESS, Some (buffer (rx_buffer s) ! unat (tail (rx_buffer s))),
            s\<lparr>rx_buffer := (rx_buffer s)\<lparr>tail :=
                 word_of_int (c_mod (uint (tail (rx_buffer s)) + 1) (int UART_BUFFER_SIZE))\<rparr>\<rparr>)"
  using Available_nonzero_not_empty [OF assms] by (simp add: UART_ReadChar_def)

lemma Available_decreases:
  assumes "UART_Available s \<noteq> 0"
  shows "unat (UART_Available (s\<lparr>rx_buffer := (rx_buffer s)\<lparr>tail :=
                 word_of_int (c_mod (uint (tail (rx_buffer s)) + 1) (int UART_BUFFER_SIZE))\<rparr>\<rparr>))
         < unat (UART_Available s)"
proof -
  define h where "h = uint (head (rx_buffer s))"
  define t where "t = uint (tail (rx_buffer s))"
  define a where "a = 1024 + h - t"
  let ?s' = "s\<lparr>rx_buffer := (rx_buffer s)\<lparr>tail :=
                 word_of_int (c_mod (uint (tail (rx_buffer s)) + 1) (int UART_BUFFER_SIZE))\<rparr>\<rparr>"
  have h0: "0 \<le> h" and t0: "0 \<le> t" by (simp_all add: h_def t_def)
  have t': "uint (tail (rx_buffer ?s')) = (t + 1) mod 1024"
  proof -
    have "c_mod (t + 1) 1024 = (t + 1) mod 1024" using t0 by (simp add: c_mod_nonneg)
    moreover have "0 \<le> (t + 1) mod 1024" "(t + 1) mod 1024 < 65536"
      by (simp, rule less_trans [OF pos_mod_bound]) simp_all
    ultimately show ?thesis
      by (simp add: UART_BUFFER_SIZE_def t_def [symmetric] uint_word_of_int)
  qed
  have t'b: "0 \<le> (t + 1) mod 1024" "(t + 1) mod 1024 < 1024" by simp_all
  have av': "uint (UART_Available ?s') = (a - 1) mod 1024"
  proof -
    have pos: "0 \<le> 1024 + h - (t + 1) mod 1024" using h0 t'b by linarith
    have "c_mod (1024 + h - (t + 1) mod 1024) 1024 = (1024 + h - (t + 1) mod 1024) mod 1024"
      using pos by (simp add: c_mod_nonneg)
    also have "\<dots> = (1024 + h - (t + 1)) mod 1024" by (simp only: mod_diff_right_eq)
    also have "\<dots> = (a - 1) mod 1024" by (simp add: a_def algebra_simps)
    finally have "c_mod (1024 + h - (t + 1) mod 1024) 1024 = (a - 1) mod 1024" .
    moreover have "0 \<le> (a - 1) mod 1024" "(a - 1) mod 1024 < 65536"
      by (simp, rule less_trans [OF pos_mod_bound]) simp_all
    moreover have "UART_Available ?s' = word_of_int (c_mod (1024 + h - (t + 1) mod 1024) 1024)"
      using t' by (simp add: UART_Available_def UART_BUFFER_SIZE_def h_def)
    ultimately show ?thesis by (simp add: uint_word_of_int)
  qed
  have av: "UART_Available s = word_of_int (c_mod a 1024)"
    by (simp add: UART_Available_def UART_BUFFER_SIZE_def h_def t_def a_def)
  have "uint (UART_Available ?s') < uint (UART_Available s)"
  proof (cases "0 \<le> a")
    case True
    then have c: "c_mod a 1024 = a mod 1024" by (simp add: c_mod_nonneg)
    have b: "0 \<le> a mod 1024" "a mod 1024 < 1024" by simp_all
    then have u: "uint (UART_Available s) = a mod 1024"
      by (simp add: av c uint_word_of_int)
    have "a mod 1024 \<noteq> 0" using assms by (auto simp: av c)
    with b have "0 \<le> a mod 1024 - 1" "a mod 1024 - 1 < 1024" by linarith+
    then have "(a mod 1024 - 1) mod 1024 = a mod 1024 - 1" by simp
    moreover have "(a mod 1024 - 1) mod 1024 = (a - 1) mod 1024" by (simp only: mod_diff_left_eq)
    ultimately show ?thesis by (simp add: av' u)
  next
    case False
    define r where "r = (- a) mod 1024"
    from False have c: "c_mod a 1024 = - r" by (simp add: c_mod_neg r_def)
    have b: "0 \<le> r" "r < 1024" by (simp_all add: r_def)
    have "r \<noteq> 0" using assms by (auto simp: av c)
    have "uint (word_of_int (- r) :: uint16_t) = (- r) mod 2 ^ LENGTH(16)"
      by (rule uint_word_of_int)
    also have "\<dots> = 65536 - r" using b \<open>r \<noteq> 0\<close> by (simp add: zmod_zminus1_eq_if)
    finally have "uint (UART_Available s) = 65536 - r" by (simp only: av c)
    moreover have "(a - 1) mod 1024 < 1024" by simp
    ultimately show ?thesis using b by (simp add: av')
  qed
  then have "UART_Available ?s' < UART_Available s" by (simp only: word_less_def)
  then show ?thesis by (simp only: word_less_nat_alt)
qed

lemma WaitForData_loop_result:
  "WaitForData_loop timeout_ms s env = Some (r, s', env') \<Longrightarrow>
     length env' \<le> length env \<and> (length env' = length env \<longrightarrow> s' = s) \<and>
     (r = UART_SUCCESS \<longrightarrow> UART_Available s' \<noteq> 0) \<and>
     (r = UART_SUCCESS \<or> r = UART_ERROR_TIMEOUT)"
proof (induction env arbitrary: s)
  case Nil
  then show ?case
    by (subst (asm) WaitForData_loop.simps) (auto split: if_splits)
next
  case (Cons e env)
  show ?case
  proof (cases "UART_Available s = 0 \<and> \<not> IsTimeOutExpired timeout_ms s")
    case True
    with Cons.prems have "WaitForData_loop timeout_ms (occur e s) env = Some (r, s', env')"
      by (subst (asm) WaitForData_loop.simps) simp
    from Cons.IH [OF this] show ?thesis by auto
  next
    case False
    with Cons.prems show ?thesis
      by (subst (asm) WaitForData_loop.simps) (auto split: if_splits)
  qed
qed

lemma WaitForData_result:
  assumes "WaitForData timeout_ms s env = Some (r, s', env')"
  shows "length env' \<le> length env"
    and "length env' = length env \<Longrightarrow> UART_Available s' = UART_Available s"
    and "r = UART_SUCCESS \<Longrightarrow> UART_Available s' \<noteq> 0"
    and "r = UART_SUCCESS \<or> r = UART_ERROR_TIMEOUT"
  using WaitForData_loop_result [of timeout_ms "ResetTimeout s" env r s' env'] assms
  by (auto simp: WaitForData_def)

termination UART_WaitForString_loop
proof (relation "inv_image (less_than <*lex*> less_than)
          (\<lambda>(str, timeout_ms, match_pos, s, env). (length env, unat (UART_Available s)))", goal_cases)
  case 1
  show ?case by (intro wf_inv_image wf_lex_prod wf_less_than)
next
  case (2 str timeout_ms match_pos s env x2 r y s1 env1 r2 y2 cp s2)
  then have "UART_Available s1 \<noteq> 0" by (auto dest: WaitForData_result(3))
  with 2 show ?case by (simp add: ReadChar_Available)
next
  case (3 str timeout_ms match_pos s env x2 r y s1 env1 r2 y2 cp s2 c match_pos1 s3)
  then have w: "WaitForData timeout_ms s env = Some (r, s1, env1)" and r: "r = UART_SUCCESS" by simp_all
  have nz: "UART_Available s1 \<noteq> 0" using WaitForData_result(3) [OF w r] .
  have s2: "s2 = s1\<lparr>rx_buffer := (rx_buffer s1)\<lparr>tail :=
                 word_of_int (c_mod (uint (tail (rx_buffer s1)) + 1) (int UART_BUFFER_SIZE))\<rparr>\<rparr>"
    using 3 nz by (simp add: ReadChar_Available)
  have dec: "unat (UART_Available s2) < unat (UART_Available s1)"
    unfolding s2 using nz by (rule Available_decreases)
  have s3: "UART_Available s3 = UART_Available s2" using 3 by (simp split: if_splits)
  show ?case
  proof (cases "length env1 = length env")
    case True
    then have "UART_Available s1 = UART_Available s" using WaitForData_result(2) [OF w] by simp
    with dec s3 True show ?thesis by simp
  next
    case False
    with WaitForData_result(1) [OF w] have "length env1 < length env" by simp
    then show ?thesis by simp
  qed
qed

termination UART_CopyUntil_loop
  apply (relation "measure (\<lambda>(end_str, buf, buffer_size, timeout_ms, buffer_pos, match_pos, s, env).
                       buffer_size - 1 - buffer_pos)")
      apply simp
     apply (auto dest!: WaitForData_result(3) simp: ReadChar_Available)
  done

declare UART_WaitForString_loop.simps [simp del]
declare UART_CopyUntil_loop.simps [simp del]

section \<open>The ring buffer is a bounded queue\<close>

lemma Available_contents:
  "rb_inv (rx_buffer s) \<Longrightarrow> unat (UART_Available s) = length (rb_contents (rx_buffer s))"
  by (simp add: avail_unat rb_inv_def rb_contents_length)

lemma power_on_inv: "rb_inv (rx_buffer power_on)" "rb_contents (rx_buffer power_on) = []"
  by (simp_all add: power_on_def rb_inv_def rb_contents_def rb_count_def UART_BUFFER_SIZE_def)

text \<open>
  C1: for every sequence of pushes and pops that never has more than
  \<open>UART_BUFFER_SIZE - 1\<close> bytes pending, started in any state of the receive ring that
  satisfies the invariant, every push succeeds, the pops return the bytes in the order
  they were pushed, and after every operation \<open>UART_Available\<close> is the number of bytes
  pushed and not yet popped.
\<close>

theorem fifo_order:
  "rb_inv (rx_buffer s) \<Longrightarrow> within_capacity (length (rb_contents (rx_buffer s))) ops \<Longrightarrow>
     run_ops s ops = fifo_ops (rb_contents (rx_buffer s)) ops"
proof (induction ops arbitrary: s)
  case Nil
  show ?case by simp
next
  case (Cons op ops)
  show ?case
  proof (cases op)
    case (Push c)
    with Cons.prems(2) have room: "rb_count (rx_buffer s) < UART_BUFFER_SIZE - 1"
      and rest: "within_capacity (length (rb_contents (rx_buffer s)) + 1) ops"
      by (simp_all add: rb_contents_length)
    from StoreChar_room [OF Cons.prems(1) room, of c] obtain b
      where st: "StoreChar c (rx_buffer s) = (UART_SUCCESS, b)" and inv: "rb_inv b"
        and cont: "rb_contents b = rb_contents (rx_buffer s) @ [c]" by blast
    have "run_ops (s\<lparr>rx_buffer := b\<rparr>) ops = fifo_ops (rb_contents (rx_buffer (s\<lparr>rx_buffer := b\<rparr>))) ops"
      using inv rest cont by (intro Cons.IH) simp_all
    moreover have "unat (UART_Available (s\<lparr>rx_buffer := b\<rparr>)) = length (rb_contents b)"
      using inv by (simp add: Available_contents)
    ultimately show ?thesis using Push st cont by simp
  next
    case Pop
    show ?thesis
    proof (cases "rb_contents (rx_buffer s)")
      case Nil
      have "run_ops s ops = fifo_ops (rb_contents (rx_buffer s)) ops"
        using Cons.prems Pop Nil by (intro Cons.IH) simp_all
      moreover have "unat (UART_Available s) = 0"
        using Cons.prems(1) Nil by (simp add: Available_contents)
      ultimately show ?thesis
        using Pop Nil ReadChar_empty [OF Cons.prems(1) Nil, of NUL] by simp
    next
      case (Cons x xs)
      from ReadChar_nonempty [OF Cons.prems(1) Cons, of NUL] obtain b
        where rd: "UART_ReadChar (Some NUL) s = (UART_SUCCESS, Some x, s\<lparr>rx_buffer := b\<rparr>)"
          and inv: "rb_inv b" and cont: "rb_contents b = xs" by blast
      have "run_ops (s\<lparr>rx_buffer := b\<rparr>) ops = fifo_ops (rb_contents (rx_buffer (s\<lparr>rx_buffer := b\<rparr>))) ops"
        using inv cont Cons.prems(2) Pop Cons by (intro Cons.IH) simp_all
      moreover have "unat (UART_Available (s\<lparr>rx_buffer := b\<rparr>)) = length (rb_contents b)"
        using inv by (simp add: Available_contents)
      ultimately show ?thesis using Pop Cons rd cont by simp
    qed
  qed
qed

theorem fifo_order_witness:
  "rb_inv (rx_buffer power_on) \<and>
   within_capacity (length (rb_contents (rx_buffer power_on)))
     [Push CHR ''a'', Push CHR ''b'', Pop, Push CHR ''c'', Pop, Pop, Pop] \<and>
   run_ops power_on [Push CHR ''a'', Push CHR ''b'', Pop, Push CHR ''c'', Pop, Pop, Pop] =
     [(UART_SUCCESS, None, 1), (UART_SUCCESS, None, 2), (UART_SUCCESS, Some CHR ''a'', 1),
      (UART_SUCCESS, None, 2), (UART_SUCCESS, Some CHR ''b'', 1), (UART_SUCCESS, Some CHR ''c'', 0),
      (UART_ERROR_BUFFER_EMPTY, None, 0)]"
proof -
  have inv: "rb_inv (rx_buffer power_on)" by (rule power_on_inv)
  have cap: "within_capacity (length (rb_contents (rx_buffer power_on)))
               [Push CHR ''a'', Push CHR ''b'', Pop, Push CHR ''c'', Pop, Pop, Pop]"
    by (simp add: power_on_inv UART_BUFFER_SIZE_def)
  show ?thesis
    using inv cap by (simp only: fifo_order [OF inv cap]) (simp add: power_on_inv)
qed

text \<open>
  C7: in every state, a push onto a full buffer (the slot after \<open>head\<close> is \<open>tail\<close>)
  returns \<open>UART_ERROR_BUFFER_FULL\<close> and the buffer it returns is the one it was given;
  a pop or a peek on an empty buffer (\<open>head = tail\<close>) returns
  \<open>UART_ERROR_BUFFER_EMPTY\<close> and leaves the state and the caller's byte as they were.
\<close>

theorem full_empty_unchanged:
  "((unat (head b) + 1) mod UART_BUFFER_SIZE = unat (tail b) \<longrightarrow>
      StoreChar c b = (UART_ERROR_BUFFER_FULL, b)) \<and>
   (head (rx_buffer s) = tail (rx_buffer s) \<longrightarrow>
      UART_ReadChar (Some c0) s = (UART_ERROR_BUFFER_EMPTY, Some c0, s) \<and>
      UART_Peek (Some c0) s = (UART_ERROR_BUFFER_EMPTY, Some c0))"
proof -
  have "(word_of_int (c_mod (uint (head b) + 1) (int UART_BUFFER_SIZE)) :: uint16_t) = tail b"
    if "(unat (head b) + 1) mod UART_BUFFER_SIZE = unat (tail b)"
    using that by (simp only: word_unat_eq_iff next_index)
  then show ?thesis
    by (simp add: StoreChar_def UART_ReadChar_def UART_Peek_def)
qed

theorem full_empty_unchanged_witness:
  "(unat (head \<lparr>buffer = replicate UART_BUFFER_SIZE NUL, head = 1023, tail = 0\<rparr>) + 1) mod UART_BUFFER_SIZE
     = unat (tail \<lparr>buffer = replicate UART_BUFFER_SIZE NUL, head = 1023, tail = 0\<rparr>) \<and>
   StoreChar CHR ''x'' \<lparr>buffer = replicate UART_BUFFER_SIZE NUL, head = 1023, tail = 0\<rparr>
     = (UART_ERROR_BUFFER_FULL, \<lparr>buffer = replicate UART_BUFFER_SIZE NUL, head = 1023, tail = 0\<rparr>) \<and>
   head (rx_buffer power_on) = tail (rx_buffer power_on) \<and>
   UART_ReadChar (Some CHR ''x'') power_on = (UART_ERROR_BUFFER_EMPTY, Some CHR ''x'', power_on) \<and>
   UART_Peek (Some CHR ''x'') power_on = (UART_ERROR_BUFFER_EMPTY, Some CHR ''x'')"
proof -
  have full: "(unat (head \<lparr>buffer = replicate UART_BUFFER_SIZE NUL, head = 1023, tail = 0\<rparr>) + 1) mod UART_BUFFER_SIZE
     = unat (tail \<lparr>buffer = replicate UART_BUFFER_SIZE NUL, head = 1023, tail = 0\<rparr>)"
    by (simp add: UART_BUFFER_SIZE_def)
  have empty: "head (rx_buffer power_on) = tail (rx_buffer power_on)"
    by (simp add: power_on_def)
  from full empty
    full_empty_unchanged [where b = "\<lparr>buffer = replicate UART_BUFFER_SIZE NUL, head = 1023, tail = 0\<rparr>"
                            and s = power_on and c = "CHR ''x''" and ?c0.0 = "CHR ''x''"]
  show ?thesis by blast
qed

section \<open>Extraction between two delimiters\<close>

lemma memcmp_0_iff:
  "n \<le> length a \<Longrightarrow> n \<le> length b \<Longrightarrow> memcmp a b n = 0 \<longleftrightarrow> take n a = take n b"
proof (induction a b n rule: memcmp.induct)
  case (1 x a y b n)
  then show ?case by simp
qed simp_all

lemma memcmp_occurs:
  assumes "i + length str \<le> length buf"
  shows "memcmp (drop i buf) str (strlen str) = 0 \<longleftrightarrow> occurs_at str buf i"
  using assms by (simp add: memcmp_0_iff strlen_def occurs_at_def)

lemma occurs_at_bound: "occurs_at str buf i \<Longrightarrow> i \<le> length buf - length str"
  by (auto simp: occurs_at_def)

lemma FindStringInBuffer_loop_step:
  assumes "n = length buf" "length str \<le> n"
  shows "FindStringInBuffer_loop str buf n i =
           (if n - length str < i then None
            else if occurs_at str buf i then Some i
            else FindStringInBuffer_loop str buf n (i + 1))"
proof (cases "i \<le> n - length str")
  case False
  then show ?thesis by (subst FindStringInBuffer_loop.simps) (simp add: strlen_def)
next
  case True
  with assms have "i + length str \<le> length buf" by simp
  from memcmp_occurs [OF this] True show ?thesis
    by (subst FindStringInBuffer_loop.simps) (simp add: strlen_def)
qed

lemma FindStringInBuffer_loop_None:
  assumes "n = length buf" "length str \<le> n"
  shows "FindStringInBuffer_loop str buf n i = None \<longleftrightarrow> (\<forall>k\<ge>i. \<not> occurs_at str buf k)"
  using assms
proof (induction str buf n i rule: FindStringInBuffer_loop.induct)
  case (1 str buf n i)
  note step = FindStringInBuffer_loop_step [OF 1(2) 1(3), of i]
  show ?case
  proof (cases "n - length str < i")
    case True
    then have "\<forall>k\<ge>i. \<not> occurs_at str buf k"
      using 1(2) by (auto dest!: occurs_at_bound)
    with True step show ?thesis by simp
  next
    case False
    show ?thesis
    proof (cases "occurs_at str buf i")
      case True
      with False step show ?thesis by auto
    next
      case nocc: False
      have inr: "i + length str \<le> length buf" using False 1(2,3) by simp
      have m: "memcmp (drop i buf) str (strlen str) \<noteq> 0" using nocc memcmp_occurs [OF inr] by simp
      have T: "i \<le> n - strlen str" using False by (simp add: strlen_def)
      have IH: "FindStringInBuffer_loop str buf n (i + 1) = None \<longleftrightarrow> (\<forall>k\<ge>i + 1. \<not> occurs_at str buf k)"
        using 1(1) [OF T m 1(2) 1(3)] .
      have "k \<ge> i \<longleftrightarrow> k = i \<or> k \<ge> i + 1" for k by arith
      then have "(\<forall>k\<ge>i. \<not> occurs_at str buf k) \<longleftrightarrow> (\<forall>k\<ge>i + 1. \<not> occurs_at str buf k)"
        using nocc by auto
      with IH step False nocc show ?thesis by simp
    qed
  qed
qed

lemma FindStringInBuffer_loop_Some:
  assumes "n = length buf" "length str \<le> n" "FindStringInBuffer_loop str buf n i = Some j"
  shows "i \<le> j \<and> occurs_at str buf j \<and> (\<forall>k. i \<le> k \<and> k < j \<longrightarrow> \<not> occurs_at str buf k)"
  using assms
proof (induction str buf n i rule: FindStringInBuffer_loop.induct)
  case (1 str buf n i)
  note step = FindStringInBuffer_loop_step [OF 1(2) 1(3), of i]
  from 1(4) step have F: "\<not> n - length str < i" by (auto split: if_splits)
  show ?case
  proof (cases "occurs_at str buf i")
    case True
    with F step 1(4) show ?thesis by auto
  next
    case nocc: False
    have inr: "i + length str \<le> length buf" using F 1(2,3) by simp
    have m: "memcmp (drop i buf) str (strlen str) \<noteq> 0" using nocc memcmp_occurs [OF inr] by simp
    have T: "i \<le> n - strlen str" using F by (simp add: strlen_def)
    have nxt: "FindStringInBuffer_loop str buf n (i + 1) = Some j" using step F nocc 1(4) by simp
    have IH: "i + 1 \<le> j \<and> occurs_at str buf j \<and> (\<forall>k. i + 1 \<le> k \<and> k < j \<longrightarrow> \<not> occurs_at str buf k)"
      using 1(1) [OF T m 1(2) 1(3) nxt] .
    have "k \<ge> i \<longleftrightarrow> k = i \<or> k \<ge> i + 1" for k by arith
    with IH nocc show ?thesis by auto
  qed
qed

lemma FindStringInBuffer_absent:
  assumes "\<forall>i. \<not> occurs_at str buf i"
  shows "FindStringInBuffer (Some str) (Some buf) (length buf) = None"
  using assms FindStringInBuffer_loop_None [of "length buf" buf str 0]
  by (simp add: FindStringInBuffer_def strlen_def)

lemma FindStringInBuffer_first:
  assumes "str \<noteq> []" "first_at str buf i"
  shows "FindStringInBuffer (Some str) (Some buf) (length buf) = Some i"
proof -
  from assms(2) have occ: "occurs_at str buf i" and least: "\<forall>k<i. \<not> occurs_at str buf k"
    by (simp_all add: first_at_def)
  from occ have len: "length str \<le> length buf" by (simp add: occurs_at_def)
  have "FindStringInBuffer_loop str buf (length buf) 0 \<noteq> None"
    using occ FindStringInBuffer_loop_None [OF refl len, of 0] by auto
  then obtain j where j: "FindStringInBuffer_loop str buf (length buf) 0 = Some j" by auto
  from FindStringInBuffer_loop_Some [OF refl len j]
  have "occurs_at str buf j" "\<forall>k<j. \<not> occurs_at str buf k" by auto
  with occ least have "j = i" by (meson linorder_neqE_nat)
  with j len assms(1) show ?thesis by (simp add: FindStringInBuffer_def strlen_def)
qed

lemma memcpy_terminate:
  assumes "n \<le> length src" "n < length dest"
  shows "(memcpy dest src n)[n := NUL] = take n src @ NUL # drop (n + 1) dest"
proof -
  have "length (take n src) = n" using assms(1) by simp
  then have "(take n src @ drop n dest)[n := NUL] = take n src @ (drop n dest)[0 := NUL]"
    by (simp add: list_update_append)
  moreover have "(drop n dest)[0 := NUL] = NUL # drop (n + 1) dest"
    using assms(2) by (cases "drop n dest") (simp_all add: drop_Suc tl_drop [symmetric] drop_eq_Nil)
  ultimately show ?thesis by (simp add: memcpy_def)
qed

text \<open>
  C5: for every source and non-empty delimiters (and a destination of at least
  \<open>dest_size > 0\<close> bytes), \<open>UART_ExtractBetween\<close> searches the first literal occurrence of
  the start delimiter and fails with \<open>UART_ERROR_NOT_FOUND\<close> when there is none; it then
  searches the first occurrence of the end delimiter in what follows the start match and
  fails with \<open>UART_ERROR_NOT_FOUND\<close> when there is none; otherwise it succeeds, and the
  destination holds the bytes strictly between the two matches, cut to at most
  \<open>dest_size - 1\<close> bytes and followed by NUL.  With \<^verbatim>\<open><a>\<close>, \<^verbatim>\<open></a>\<close>, the
  source \<^verbatim>\<open>x<a>42</a>y\<close> and 8 bytes of destination the result is \<^verbatim>\<open>42\<close>.
\<close>

theorem extract_between:
  assumes "start_str \<noteq> []" "end_str \<noteq> []" "0 < dest_size" "dest_size \<le> length dest"
  shows "((\<forall>i. \<not> occurs_at start_str source i) \<longrightarrow>
            UART_ExtractBetween (Some start_str) (Some end_str) (Some source) (Some dest) dest_size
              = (UART_ERROR_NOT_FOUND, Some dest)) \<and>
         (\<forall>i. first_at start_str source i \<and>
               (\<forall>j. \<not> occurs_at end_str (drop (i + length start_str) source) j) \<longrightarrow>
            UART_ExtractBetween (Some start_str) (Some end_str) (Some source) (Some dest) dest_size
              = (UART_ERROR_NOT_FOUND, Some dest)) \<and>
         (\<forall>i j. first_at start_str source i \<and>
                 first_at end_str (drop (i + length start_str) source) j \<longrightarrow>
            UART_ExtractBetween (Some start_str) (Some end_str) (Some source) (Some dest) dest_size
              = (UART_SUCCESS,
                 Some (take (min j (dest_size - 1)) (drop (i + length start_str) source)
                       @ NUL # drop (min j (dest_size - 1) + 1) dest)))"
proof (intro conjI allI impI)
  assume "\<forall>i. \<not> occurs_at start_str source i"
  then have "FindStringInBuffer (Some start_str) (Some source) (length source) = None"
    by (rule FindStringInBuffer_absent)
  then show "UART_ExtractBetween (Some start_str) (Some end_str) (Some source) (Some dest) dest_size
              = (UART_ERROR_NOT_FOUND, Some dest)"
    using assms(3) by (simp add: UART_ExtractBetween_def strlen_def)
next
  fix i
  let ?rest = "drop (i + length start_str) source"
  assume a: "first_at start_str source i \<and> (\<forall>j. \<not> occurs_at end_str ?rest j)"
  then have 1: "FindStringInBuffer (Some start_str) (Some source) (length source) = Some i"
    using assms(1) by (simp add: FindStringInBuffer_first)
  from a have "\<forall>j. \<not> occurs_at end_str ?rest j" by simp
  from FindStringInBuffer_absent [OF this] have 2: "FindStringInBuffer (Some end_str) (Some ?rest) (length source - (i + length start_str)) = None"
    by simp
  show "UART_ExtractBetween (Some start_str) (Some end_str) (Some source) (Some dest) dest_size
              = (UART_ERROR_NOT_FOUND, Some dest)"
    using assms(3) 1 2 by (simp add: UART_ExtractBetween_def strlen_def Let_def)
next
  fix i j
  let ?rest = "drop (i + length start_str) source"
  let ?n = "min j (dest_size - 1)"
  assume a: "first_at start_str source i \<and> first_at end_str ?rest j"
  then have 1: "FindStringInBuffer (Some start_str) (Some source) (length source) = Some i"
    using assms(1) by (simp add: FindStringInBuffer_first)
  from a have "first_at end_str ?rest j" by simp
  from FindStringInBuffer_first [OF assms(2) this] have 2: "FindStringInBuffer (Some end_str) (Some ?rest) (length source - (i + length start_str)) = Some j"
    by simp
  from a have "occurs_at end_str ?rest j" by (simp add: first_at_def)
  then have "j \<le> length ?rest" by (simp add: occurs_at_def)
  then have n1: "?n \<le> length ?rest" by simp
  have n2: "?n < length dest" using assms(3,4) by simp
  have n3: "(if dest_size \<le> j then dest_size - 1 else j) = ?n" using assms(3) by (auto simp: min_def)
  show "UART_ExtractBetween (Some start_str) (Some end_str) (Some source) (Some dest) dest_size
              = (UART_SUCCESS, Some (take ?n ?rest @ NUL # drop (?n + 1) dest))"
  proof -
    have "UART_ExtractBetween (Some start_str) (Some end_str) (Some source) (Some dest) dest_size
            = (UART_SUCCESS, Some ((memcpy dest ?rest (if dest_size \<le> j then dest_size - 1 else j))
                                     [(if dest_size \<le> j then dest_size - 1 else j) := NUL]))"
      using assms(3) 1 2 by (simp add: UART_ExtractBetween_def strlen_def Let_def split del: if_split cong: if_cong)
    then show ?thesis by (simp only: n3 memcpy_terminate [OF n1 n2])
  qed
qed

theorem extract_between_witness:
  "''<a>'' \<noteq> [] \<and> ''</a>'' \<noteq> [] \<and> (0::nat) < 8 \<and> 8 \<le> length (replicate 8 CHR ''#'') \<and>
   first_at ''<a>'' ''x<a>42</a>y'' 1 \<and>
   first_at ''</a>'' (drop (1 + length ''<a>'') ''x<a>42</a>y'') 2 \<and>
   UART_ExtractBetween (Some ''<a>'') (Some ''</a>'') (Some ''x<a>42</a>y'') (Some (replicate 8 CHR ''#'')) 8
     = (UART_SUCCESS, Some (''42'' @ NUL # replicate 5 CHR ''#'')) \<and>
   (\<forall>i. \<not> occurs_at ''<a>'' ''x42</a>y'' i) \<and>
   UART_ExtractBetween (Some ''<a>'') (Some ''</a>'') (Some ''x42</a>y'') (Some (replicate 8 CHR ''#'')) 8
     = (UART_ERROR_NOT_FOUND, Some (replicate 8 CHR ''#''))"
proof -
  have h: "''<a>'' \<noteq> []" "''</a>'' \<noteq> []" "(0::nat) < 8" "8 \<le> length (replicate 8 CHR ''#'')"
    by simp_all
  have f1: "first_at ''<a>'' ''x<a>42</a>y'' 1"
    by (simp add: first_at_def occurs_at_def)
  have f2: "first_at ''</a>'' (drop (1 + length ''<a>'') ''x<a>42</a>y'') 2"
    by (auto simp: first_at_def occurs_at_def less_2_cases_iff)
  have n: "\<forall>i. \<not> occurs_at ''<a>'' ''x42</a>y'' i"
  proof (intro allI notI)
    fix i assume o: "occurs_at ''<a>'' ''x42</a>y'' i"
    then have "i + 3 \<le> 8" by (simp add: occurs_at_def)
    then have "i \<in> {0, 1, 2, 3, 4, 5}" by auto
    with o show False by (auto simp: occurs_at_def)
  qed
  note t = extract_between [OF h, of "''x<a>42</a>y''"] extract_between [OF h, of "''x42</a>y''"]
  from t(1) f1 f2
  have "UART_ExtractBetween (Some ''<a>'') (Some ''</a>'') (Some ''x<a>42</a>y'') (Some (replicate 8 CHR ''#'')) 8
     = (UART_SUCCESS, Some (take (min 2 (8 - 1)) (drop (1 + length ''<a>'') ''x<a>42</a>y'')
                       @ NUL # drop (min 2 (8 - 1) + 1) (replicate 8 CHR ''#'')))"
    by blast
  then have a: "UART_ExtractBetween (Some ''<a>'') (Some ''</a>'') (Some ''x<a>42</a>y'') (Some (replicate 8 CHR ''#'')) 8
     = (UART_SUCCESS, Some (''42'' @ NUL # replicate 5 CHR ''#''))"
    by simp
  from t(2) n
  have b: "UART_ExtractBetween (Some ''<a>'') (Some ''</a>'') (Some ''x42</a>y'') (Some (replicate 8 CHR ''#'')) 8
     = (UART_ERROR_NOT_FOUND, Some (replicate 8 CHR ''#''))"
    by blast
  from h f1 f2 a n b show ?thesis by blast
qed

text \<open>
  C10: whenever \<open>UART_ExtractBetween\<close> returns \<open>UART_ERROR_NOT_FOUND\<close> or
  \<open>UART_ERROR_INVALID_PARAM\<close>, the destination it returns is the one it was given: no
  byte of it, and no terminator, has been written.
\<close>

theorem extract_error_keeps_dest:
  "fst (UART_ExtractBetween start_str end_str source dest dest_size) = UART_ERROR_NOT_FOUND \<or>
   fst (UART_ExtractBetween start_str end_str source dest dest_size) = UART_ERROR_INVALID_PARAM
   \<Longrightarrow> snd (UART_ExtractBetween start_str end_str source dest dest_size) = dest"
  by (auto simp: UART_ExtractBetween_def Let_def split: option.splits if_splits)

theorem extract_error_keeps_dest_witness:
  "fst (UART_ExtractBetween (Some ''<a>'') (Some ''</a>'') (Some ''x42</a>y'') (Some ''########'') 8)
     = UART_ERROR_NOT_FOUND \<and>
   snd (UART_ExtractBetween (Some ''<a>'') (Some ''</a>'') (Some ''x42</a>y'') (Some ''########'') 8)
     = Some ''########'' \<and>
   fst (UART_ExtractBetween (Some ''<a>'') (Some ''</a>'') (Some ''x<a>42</a>y'') None 8)
     = UART_ERROR_INVALID_PARAM \<and>
   snd (UART_ExtractBetween (Some ''<a>'') (Some ''</a>'') (Some ''x<a>42</a>y'') None 8) = None"
proof -
  have 1: "fst (UART_ExtractBetween (Some ''<a>'') (Some ''</a>'') (Some ''x42</a>y'') (Some ''########'') 8)
     = UART_ERROR_NOT_FOUND"
    by (simp add: UART_ExtractBetween_def FindStringInBuffer_def FindStringInBuffer_loop.simps strlen_def Let_def)
  have 2: "fst (UART_ExtractBetween (Some ''<a>'') (Some ''</a>'') (Some ''x<a>42</a>y'') None 8)
     = UART_ERROR_INVALID_PARAM"
    by (simp add: UART_ExtractBetween_def)
  from 1 2 extract_error_keeps_dest [of "Some ''<a>''" "Some ''</a>''" "Some ''x42</a>y''" "Some ''########''" 8]
    extract_error_keeps_dest [of "Some ''<a>''" "Some ''</a>''" "Some ''x<a>42</a>y''" None 8]
  show ?thesis by blast
qed

section \<open>Expiry across a wrap of the tick counter\<close>

text \<open>
  C9, as amended: for every start time, every duration and every later time with fewer
  than \<open>2 ^ 32\<close> milliseconds between the two (the counter may have wrapped once in
  between), \<open>IsTimeOutExpired\<close>, which compares the 32-bit unsigned difference of the two
  readings with the duration, decides as the true elapsed time does.
\<close>

theorem timeout_wraparound:
  assumes "S \<le> T" "T - S < 2 ^ 32"
  shows "IsTimeOutExpired d (elapsed_reading s S T) \<longleftrightarrow> unat d \<le> T - S"
proof -
  have "(of_nat T - of_nat S :: uint32_t) = of_nat (T - S)"
    using assms(1) by simp
  moreover have "unat (of_nat (T - S) :: uint32_t) = T - S"
    using assms(2) by (simp add: unat_of_nat)
  ultimately have "unat (of_nat T - of_nat S :: uint32_t) = T - S" by simp
  then show ?thesis
    by (simp add: IsTimeOutExpired_def elapsed_reading_def ResetTimeout_def HAL_GetTick_def word_le_nat_alt)
qed

theorem timeout_wraparound_witness:
  "(4294967290::nat) \<le> 4294967301 \<and> (4294967301::nat) - 4294967290 < 2 ^ 32 \<and>
   wraps 4294967290 4294967301 = 1 \<and>
   IsTimeOutExpired 10 (elapsed_reading power_on 4294967290 4294967301) \<and>
   \<not> IsTimeOutExpired 12 (elapsed_reading power_on 4294967290 4294967301)"
proof -
  have h: "(4294967290::nat) \<le> 4294967301" "(4294967301::nat) - 4294967290 < 2 ^ 32" by simp_all
  have w: "wraps 4294967290 4294967301 = 1" by (simp add: wraps_def)
  from timeout_wraparound [OF h, of 10 power_on] timeout_wraparound [OF h, of 12 power_on] h w
  show ?thesis by simp
qed

text \<open>
  One wrap between the two readings is not enough for that: from time \<open>0\<close> to time
  \<open>2 ^ 32\<close> the counter wraps once, the difference of the readings is \<open>0\<close>, and a
  timeout of one millisecond is not reported as expired.
\<close>

theorem timeout_one_wrap_counterexample:
  "(0::nat) \<le> 2 ^ 32 \<and> wraps 0 (2 ^ 32) \<le> 1 \<and>
   \<not> (IsTimeOutExpired 1 (elapsed_reading power_on 0 (2 ^ 32)) \<longleftrightarrow> unat (1::uint32_t) \<le> 2 ^ 32 - 0)"
proof -
  have z: "(of_nat (2 ^ 32) :: uint32_t) = 0" by (simp add: word_of_nat_eq_0_iff)
  have "\<not> IsTimeOutExpired 1 (elapsed_reading power_on 0 (2 ^ 32))"
    unfolding elapsed_reading_def z
    by (simp add: IsTimeOutExpired_def ResetTimeout_def HAL_GetTick_def)
  then show ?thesis by (simp add: wraps_def)
qed

section \<open>Invalid parameters\<close>

text \<open>
  C6, as amended: a \<^verbatim>\<open>NULL\<close> argument of \<open>UART_ReadChar\<close>, \<open>UART_Peek\<close>,
  \<open>UART_SendString\<close>, \<open>UART_WaitForString\<close>, \<open>UART_CopyUntil\<close> or
  \<open>UART_ExtractBetween\<close>, a zero-length string to wait for, and a destination size of
  zero give \<open>UART_ERROR_INVALID_PARAM\<close> with the state, the environment and the
  destination unchanged.  A zero-length string is no invalid parameter of
  \<open>UART_SendString\<close>, which succeeds and changes nothing, and a zero-length delimiter is
  none of \<open>UART_ExtractBetween\<close>, which returns \<open>UART_ERROR_NOT_FOUND\<close> and leaves the
  destination unchanged.
\<close>

theorem invalid_param_no_effect:
  "UART_ReadChar None s = (UART_ERROR_INVALID_PARAM, None, s) \<and>
   UART_Peek None s = (UART_ERROR_INVALID_PARAM, None) \<and>
   UART_SendString None s env = Some (UART_ERROR_INVALID_PARAM, s, env) \<and>
   UART_WaitForString None timeout_ms s env = Some (UART_ERROR_INVALID_PARAM, s, env) \<and>
   UART_WaitForString (Some []) timeout_ms s env = Some (UART_ERROR_INVALID_PARAM, s, env) \<and>
   UART_CopyUntil None buf buffer_size timeout_ms s env = Some (UART_ERROR_INVALID_PARAM, buf, s, env) \<and>
   UART_CopyUntil end_str None buffer_size timeout_ms s env = Some (UART_ERROR_INVALID_PARAM, None, s, env) \<and>
   UART_CopyUntil end_str buf 0 timeout_ms s env = Some (UART_ERROR_INVALID_PARAM, buf, s, env) \<and>
   UART_ExtractBetween None end_str source dest dest_size = (UART_ERROR_INVALID_PARAM, dest) \<and>
   UART_ExtractBetween start_str None source dest dest_size = (UART_ERROR_INVALID_PARAM, dest) \<and>
   UART_ExtractBetween start_str end_str None dest dest_size = (UART_ERROR_INVALID_PARAM, dest) \<and>
   UART_ExtractBetween start_str end_str source None dest_size = (UART_ERROR_INVALID_PARAM, None) \<and>
   UART_ExtractBetween start_str end_str source dest 0 = (UART_ERROR_INVALID_PARAM, dest) \<and>
   UART_SendString (Some []) s env = Some (UART_SUCCESS, s, env) \<and>
   UART_ExtractBetween (Some []) (Some e) (Some src) (Some d) (Suc n) = (UART_ERROR_NOT_FOUND, Some d) \<and>
   UART_ExtractBetween (Some a) (Some []) (Some src) (Some d) (Suc n) = (UART_ERROR_NOT_FOUND, Some d)"
  by (simp add: UART_ReadChar_def UART_Peek_def UART_SendString_def UART_WaitForString_def
        UART_CopyUntil_def UART_ExtractBetween_def FindStringInBuffer_def strlen_def Let_def
      split: option.splits)

text \<open>
  Sending the empty string at power-on succeeds: a zero-length argument is not always
  an invalid parameter.
\<close>

theorem empty_string_counterexample:
  "UART_SendString (Some []) power_on [] = Some (UART_SUCCESS, power_on, [])"
  by (simp add: UART_SendString_def)

section \<open>Waiting for a token\<close>

lemma fed_simps [simp]: "fed P m [] = m" "fed P m (c # cs) = fed P (feed P m c) cs"
  by (simp_all add: fed_def)

lemma fed_snoc: "fed P m (cs @ [c]) = feed P (fed P m cs) c"
  by (simp add: fed_def)

lemma feed_le: "m < length P \<Longrightarrow> feed P m c \<le> length P"
  by (auto simp: feed_def)

lemma WaitForData_ResetTimeout [simp]: "WaitForData t (ResetTimeout s) env = WaitForData t s env"
  by (simp add: WaitForData_def ResetTimeout_def HAL_GetTick_def)

lemma receive_ResetTimeout: "0 < n \<Longrightarrow> receive t n (ResetTimeout s) env = receive t n s env"
  by (cases n) simp_all

lemma receive_Suc:
  assumes "receive t (Suc n) s env = Some (c # cs, s', env')"
  obtains s1 env1 s2 where "WaitForData t s env = Some (UART_SUCCESS, s1, env1)"
    and "UART_ReadChar (Some NUL) s1 = (UART_SUCCESS, Some c, s2)"
    and "receive t n s2 env1 = Some (cs, s', env')"
proof -
  from assms obtain r s1 env1 where w: "WaitForData t s env = Some (r, s1, env1)"
    by (auto split: option.splits)
  with assms have r: "r = UART_SUCCESS" by (auto split: if_splits)
  from WaitForData_result(3) [OF w r] have nz: "UART_Available s1 \<noteq> 0" .
  note rd = ReadChar_Available [OF nz, of NUL]
  from assms w r rd
  have "c = buffer (rx_buffer s1) ! unat (tail (rx_buffer s1))"
    and "receive t n (s1\<lparr>rx_buffer := (rx_buffer s1)\<lparr>tail :=
                 word_of_int (c_mod (uint (tail (rx_buffer s1)) + 1) (int UART_BUFFER_SIZE))\<rparr>\<rparr>) env1
           = Some (cs, s', env')"
    by (auto split: option.splits)
  with that w r rd show thesis by simp
qed

lemma receive_length: "receive t n s env = Some (cs, s', env') \<Longrightarrow> length cs = n"
  by (induction n arbitrary: s env cs) (auto split: option.splits if_splits prod.splits)

lemma WaitForString_loop_step:
  assumes "m < length P"
    and "WaitForData t s env = Some (UART_SUCCESS, s1, env1)"
    and "UART_ReadChar (Some NUL) s1 = (UART_SUCCESS, Some c, s2)"
  shows "UART_WaitForString_loop P t m s env =
           UART_WaitForString_loop P t (feed P m c)
             (if feed P m c > 0 then ResetTimeout s2 else s2) env1"
proof -
  have "char_at P m = P ! m" "char_at P 0 = P ! 0" using assms(1) by (auto simp: char_at_def)
  then show ?thesis
    using assms by (subst UART_WaitForString_loop.simps) (simp add: strlen_def feed_def Let_def)
qed

lemma WaitForString_loop_done:
  "length P \<le> m \<Longrightarrow> UART_WaitForString_loop P t m s env = Some (UART_SUCCESS, s, env)"
  by (subst UART_WaitForString_loop.simps) (simp add: strlen_def)

lemma WaitForString_loop_sim:
  assumes "receive t (length cs) s env = Some (cs, s', env')"
    and "\<forall>j<length cs. fed P m (take j cs) < length P"
  shows "UART_WaitForString_loop P t m s env =
           UART_WaitForString_loop P t (fed P m cs)
             (if cs = [] then s else if fed P m cs > 0 then ResetTimeout s' else s') env'"
  using assms
proof (induction cs arbitrary: m s env)
  case Nil
  then show ?case by simp
next
  case (Cons c cs)
  from Cons.prems(1) have "receive t (Suc (length cs)) s env = Some (c # cs, s', env')" by simp
  then obtain s1 env1 s2 where w: "WaitForData t s env = Some (UART_SUCCESS, s1, env1)"
    and rd: "UART_ReadChar (Some NUL) s1 = (UART_SUCCESS, Some c, s2)"
    and rest: "receive t (length cs) s2 env1 = Some (cs, s', env')"
    by (rule receive_Suc)
  from Cons.prems(2) have m: "m < length P" by fastforce
  let ?m1 = "feed P m c"
  let ?s3 = "if ?m1 > 0 then ResetTimeout s2 else s2"
  have step: "UART_WaitForString_loop P t m s env = UART_WaitForString_loop P t ?m1 ?s3 env1"
    using m w rd by (rule WaitForString_loop_step)
  show ?case
  proof (cases "cs = []")
    case True
    with rest have "s' = s2" "env' = env1" by simp_all
    with step True show ?thesis by simp
  next
    case False
    then have "receive t (length cs) ?s3 env1 = Some (cs, s', env')"
      using rest by (simp add: receive_ResetTimeout)
    moreover have "\<forall>j<length cs. fed P ?m1 (take j cs) < length P"
    proof (intro allI impI)
      fix j assume "j < length cs"
      then have "Suc j < length (c # cs)" by simp
      with Cons.prems(2) have "fed P m (take (Suc j) (c # cs)) < length P" by blast
      then show "fed P ?m1 (take j cs) < length P" by simp
    qed
    ultimately have "UART_WaitForString_loop P t ?m1 ?s3 env1 =
           UART_WaitForString_loop P t (fed P ?m1 cs)
             (if cs = [] then ?s3 else if fed P ?m1 cs > 0 then ResetTimeout s' else s') env'"
      by (rule Cons.IH)
    with step False show ?thesis by simp
  qed
qed

lemma fed_le:
  assumes "m \<le> length P" "\<forall>j<length cs. fed P m (take j cs) < length P"
  shows "fed P m cs \<le> length P"
proof (cases cs rule: rev_cases)
  case Nil
  with assms show ?thesis by simp
next
  case (snoc bs c)
  then have "length bs < length cs" by simp
  with assms(2) have "fed P m (take (length bs) cs) < length P" by blast
  with snoc have "fed P m bs < length P" by simp
  then show ?thesis using snoc by (simp add: fed_snoc feed_le)
qed

lemma never_matched_less:
  assumes "\<forall>j<length cs. fed P 0 (take j cs) \<noteq> length P" "P \<noteq> []"
  shows "\<forall>j<length cs. fed P 0 (take j cs) < length P"
proof -
  have "j \<le> length cs \<Longrightarrow> \<forall>i<j. fed P 0 (take i cs) < length P" for j
  proof (induction j)
    case 0
    show ?case by simp
  next
    case (Suc j)
    then have IH: "\<forall>i<j. fed P 0 (take i cs) < length P" and j: "j < length cs" by simp_all
    have "\<forall>i<length (take j cs). fed P 0 (take i (take j cs)) < length P"
      using IH j by (simp add: min_def)
    then have "fed P 0 (take j cs) \<le> length P" by (intro fed_le) simp_all
    moreover have "fed P 0 (take j cs) \<noteq> length P" using j assms(1) by simp
    ultimately have "fed P 0 (take j cs) < length P" by simp
    with IH show ?case by (auto simp: less_Suc_eq)
  qed
  from this [of "length cs"] show ?thesis by simp
qed

lemma Available_uwTick [simp]: "UART_Available (s\<lparr>uwTick := x\<rparr>) = UART_Available s"
  by (simp add: UART_Available_def)

lemma WaitForData_loop_ticks:
  assumes "UART_Available s = 0" "unat (uwTick s - timeout_start s) + k \<le> unat t"
  shows "WaitForData_loop t s (replicate k SysTick @ env)
           = WaitForData_loop t (s\<lparr>uwTick := uwTick s + of_nat k\<rparr>) env"
  using assms
proof (induction k arbitrary: s)
  case 0
  then show ?case by simp
next
  case (Suc k)
  let ?e = "uwTick s - timeout_start s"
  let ?s1 = "s\<lparr>uwTick := uwTick s + 1\<rparr>"
  from Suc.prems(2) have lt: "unat ?e < unat t" by simp
  then have ne: "\<not> IsTimeOutExpired t s"
    by (simp add: IsTimeOutExpired_def HAL_GetTick_def word_le_nat_alt)
  have step: "WaitForData_loop t s (replicate (Suc k) SysTick @ env)
                = WaitForData_loop t ?s1 (replicate k SysTick @ env)"
    using Suc.prems(1) ne by (subst WaitForData_loop.simps) simp
  have "unat ?e + 1 < 2 ^ 32"
    using lt unsigned_less [of t, where 'a = nat] by simp
  then have u1: "unat (?e + 1) = unat ?e + 1"
    by (simp add: unat_word_ariths)
  have e1: "unat (uwTick ?s1 - timeout_start ?s1) + k \<le> unat t"
  proof -
    have "uwTick ?s1 - timeout_start ?s1 = ?e + 1" by simp
    then have "unat (uwTick ?s1 - timeout_start ?s1) = unat ?e + 1" using u1 by (simp only:)
    then show ?thesis using Suc.prems(2) by linarith
  qed
  have "WaitForData_loop t ?s1 (replicate k SysTick @ env)
          = WaitForData_loop t (?s1\<lparr>uwTick := uwTick ?s1 + of_nat k\<rparr>) env"
    using Suc.prems(1) e1 by (intro Suc.IH) simp_all
  with step show ?case by (simp add: add.assoc)
qed

lemma WaitForData_silence:
  assumes "UART_Available s = 0"
  shows "WaitForData t s (replicate (unat t) SysTick @ env)
           = Some (UART_ERROR_TIMEOUT, (ResetTimeout s)\<lparr>uwTick := uwTick s + t\<rparr>, env)"
proof -
  let ?s0 = "ResetTimeout s"
  let ?s1 = "?s0\<lparr>uwTick := uwTick ?s0 + of_nat (unat t)\<rparr>"
  have a0: "UART_Available ?s0 = 0" using assms by simp
  have e0: "unat (uwTick ?s0 - timeout_start ?s0) + unat t \<le> unat t"
    by (simp add: ResetTimeout_def HAL_GetTick_def)
  have "WaitForData_loop t ?s0 (replicate (unat t) SysTick @ env) = WaitForData_loop t ?s1 env"
    using a0 e0 by (rule WaitForData_loop_ticks)
  moreover have "IsTimeOutExpired t ?s1"
    by (simp add: IsTimeOutExpired_def ResetTimeout_def HAL_GetTick_def)
  then have "WaitForData_loop t ?s1 env = Some (UART_ERROR_TIMEOUT, ?s1, env)"
    using a0 by (subst WaitForData_loop.simps) simp
  moreover have "?s1 = ?s0\<lparr>uwTick := uwTick s + t\<rparr>"
    by (simp add: ResetTimeout_def)
  ultimately show ?thesis by (simp add: WaitForData_def)
qed

lemma WaitForString_loop_timeout:
  assumes "m < length P" "WaitForData t s env = Some (UART_ERROR_TIMEOUT, s1, env1)"
  shows "UART_WaitForString_loop P t m s env = Some (UART_ERROR_TIMEOUT, s1, env1)"
  using assms by (subst UART_WaitForString_loop.simps) (simp add: strlen_def)

lemma WaitForString_loop_unfold:
  assumes "m < length P"
  shows "UART_WaitForString_loop P t m s env =
     (case WaitForData t s env of
        None \<Rightarrow> None
      | Some (r, s1, env1) \<Rightarrow>
          if r \<noteq> UART_SUCCESS then Some (UART_ERROR_TIMEOUT, s1, env1)
          else (case UART_ReadChar (Some NUL) s1 of
                  (r2, cp, s2) \<Rightarrow>
                    UART_WaitForString_loop P t (feed P m (the cp))
                      (if feed P m (the cp) > 0 then ResetTimeout s2 else s2) env1))"
proof -
  have ch: "char_at P m = P ! m" "char_at P 0 = P ! 0" using assms by (auto simp: char_at_def)
  show ?thesis
  proof (cases "WaitForData t s env")
    case None
    then show ?thesis using assms by (subst UART_WaitForString_loop.simps) (simp add: strlen_def)
  next
    case (Some x)
    obtain r s1 env1 where x: "x = (r, s1, env1)" by (cases x)
    show ?thesis
    proof (cases "r = UART_SUCCESS")
      case False
      then show ?thesis using assms Some x
        by (subst UART_WaitForString_loop.simps) (simp add: strlen_def)
    next
      case True
      with Some x have w: "WaitForData t s env = Some (UART_SUCCESS, s1, env1)" by simp
      from WaitForData_result(3) [OF w refl] have nz: "UART_Available s1 \<noteq> 0" .
      note rd = ReadChar_Available [OF nz, of NUL]
      show ?thesis
        using assms w rd
        by (subst UART_WaitForString_loop.simps) (simp add: strlen_def feed_def Let_def ch)
    qed
  qed
qed

lemma WaitForString_loop_success:
  assumes "m \<le> length P"
    and "UART_WaitForString_loop P t m s env = Some (UART_SUCCESS, sf, envf)"
  shows "\<exists>cs s'. receive t (length cs) s env = Some (cs, s', envf) \<and>
                 (\<forall>j<length cs. fed P m (take j cs) < length P) \<and>
                 fed P m cs = length P \<and>
                 sf = (if cs = [] then s else ResetTimeout s')"
  using assms
proof (induction P t m s env arbitrary: sf envf rule: UART_WaitForString_loop.induct)
  case (1 str timeout_ms match_pos s env)
  show ?case
  proof (cases "match_pos < length str")
    case False
    with 1(3) have m: "match_pos = length str" by simp
    then have "UART_WaitForString_loop str timeout_ms match_pos s env = Some (UART_SUCCESS, s, env)"
      by (simp add: WaitForString_loop_done)
    with 1(4) have "sf = s" "envf = env" by simp_all
    with m show ?thesis by (intro exI [of _ "[]"] exI [of _ s]) simp
  next
    case True
    note unf = WaitForString_loop_unfold [OF True, of timeout_ms s env]
    from 1(4) unf obtain r s1 env1 where w: "WaitForData timeout_ms s env = Some (r, s1, env1)"
      by (cases "WaitForData timeout_ms s env") auto
    from 1(4) unf w have r: "r = UART_SUCCESS" by (auto split: if_splits)
    from WaitForData_result(3) [OF w r] have nz: "UART_Available s1 \<noteq> 0" .
    note rd = ReadChar_Available [OF nz, of NUL]
    define c where "c = buffer (rx_buffer s1) ! unat (tail (rx_buffer s1))"
    define s2 where "s2 = s1\<lparr>rx_buffer := (rx_buffer s1)\<lparr>tail :=
                 word_of_int (c_mod (uint (tail (rx_buffer s1)) + 1) (int UART_BUFFER_SIZE))\<rparr>\<rparr>"
    have rd': "UART_ReadChar (Some NUL) s1 = (UART_SUCCESS, Some c, s2)"
      using rd by (simp add: c_def s2_def)
    let ?m1 = "feed str match_pos c"
    let ?s3 = "if ?m1 > 0 then ResetTimeout s2 else s2"
    have rec: "UART_WaitForString_loop str timeout_ms ?m1 ?s3 env1 = Some (UART_SUCCESS, sf, envf)"
      using 1(4) unf w r rd' by simp
    have m1: "?m1 \<le> length str" using True by (rule feed_le)
    have ch: "char_at str match_pos = str ! match_pos" "char_at str 0 = str ! 0"
      using True by (auto simp: char_at_def)
    let ?E = "if the (Some c) = char_at str match_pos then match_pos + 1
              else if the (Some c) = char_at str 0 then 1 else 0"
    have E: "?E = ?m1" by (simp add: feed_def ch)
    have T: "match_pos < strlen str" using True by (simp add: strlen_def)
    have w': "WaitForData timeout_ms s env = Some (UART_SUCCESS, s1, env1)" using w r by simp
    have nn: "\<not> UART_SUCCESS \<noteq> UART_SUCCESS" by simp
    have mE: "?E \<le> length str" using m1 by (simp only: E)
    have recE: "UART_WaitForString_loop str timeout_ms ?E (if 0 < ?E then ResetTimeout s2 else s2) env1
                  = Some (UART_SUCCESS, sf, envf)"
      using rec by (simp only: E)
    from 1(2) [OF T w' refl refl nn rd' [symmetric] refl nn refl refl refl mE recE]
    have "\<exists>cs s'. receive timeout_ms (length cs) (if 0 < ?E then ResetTimeout s2 else s2) env1
                      = Some (cs, s', envf) \<and>
                   (\<forall>j<length cs. fed str ?E (take j cs) < length str) \<and>
                   fed str ?E cs = length str \<and>
                   sf = (if cs = [] then (if 0 < ?E then ResetTimeout s2 else s2) else ResetTimeout s')" .
    then obtain cs s' where rc: "receive timeout_ms (length cs) ?s3 env1 = Some (cs, s', envf)"
      and nm: "\<forall>j<length cs. fed str ?m1 (take j cs) < length str"
      and full: "fed str ?m1 cs = length str"
      and sf: "sf = (if cs = [] then ?s3 else ResetTimeout s')"
      unfolding E by (elim exE conjE)
    have pos: "cs = [] \<Longrightarrow> 0 < ?m1" using full True by auto
    have rc2: "receive timeout_ms (length cs) s2 env1 = Some (cs, if cs = [] then s2 else s', envf)"
    proof (cases "cs = []")
      case True
      with rc show ?thesis by simp
    next
      case False
      with rc show ?thesis by (auto simp: receive_ResetTimeout split: if_splits)
    qed
    let ?s'' = "if cs = [] then s2 else s'"
    have a: "receive timeout_ms (length (c # cs)) s env = Some (c # cs, ?s'', envf)"
      using w' rd' rc2 by simp
    have b: "\<forall>j<length (c # cs). fed str match_pos (take j (c # cs)) < length str"
    proof (intro allI impI)
      fix j assume j: "j < length (c # cs)"
      show "fed str match_pos (take j (c # cs)) < length str"
      proof (cases j)
        case 0
        with True show ?thesis by simp
      next
        case (Suc k)
        with j nm show ?thesis by simp
      qed
    qed
    have c: "fed str match_pos (c # cs) = length str" using full by simp
    have d: "sf = (if c # cs = [] then s else ResetTimeout ?s'')"
      using sf pos by (cases "cs = []") simp_all
    from a b c d show ?thesis
      by (intro exI [of _ "c # cs"] exI [of _ ?s''] conjI)
  qed
qed

lemma WaitForString_loop_status:
  "UART_WaitForString_loop P t m s env = Some (r, sf, envf) \<Longrightarrow>
     r = UART_SUCCESS \<or> r = UART_ERROR_TIMEOUT"
proof (induction P t m s env arbitrary: r sf envf rule: UART_WaitForString_loop.induct)
  case (1 str timeout_ms match_pos s env)
  show ?case
  proof (cases "match_pos < length str")
    case False
    then have "UART_WaitForString_loop str timeout_ms match_pos s env = Some (UART_SUCCESS, s, env)"
      by (simp add: WaitForString_loop_done)
    with 1(3) show ?thesis by simp
  next
    case True
    note unf = WaitForString_loop_unfold [OF True, of timeout_ms s env]
    from 1(3) unf obtain r1 s1 env1 where w: "WaitForData timeout_ms s env = Some (r1, s1, env1)"
      by (cases "WaitForData timeout_ms s env") auto
    show ?thesis
    proof (cases "r1 = UART_SUCCESS")
      case False
      with 1(3) unf w show ?thesis by simp
    next
      case r: True
      from WaitForData_result(3) [OF w r] have nz: "UART_Available s1 \<noteq> 0" .
      note rd = ReadChar_Available [OF nz, of NUL]
      define c where "c = buffer (rx_buffer s1) ! unat (tail (rx_buffer s1))"
      define s2 where "s2 = s1\<lparr>rx_buffer := (rx_buffer s1)\<lparr>tail :=
                   word_of_int (c_mod (uint (tail (rx_buffer s1)) + 1) (int UART_BUFFER_SIZE))\<rparr>\<rparr>"
      have rd': "UART_ReadChar (Some NUL) s1 = (UART_SUCCESS, Some c, s2)"
        using rd by (simp add: c_def s2_def)
      let ?m1 = "feed str match_pos c"
      have ch: "char_at str match_pos = str ! match_pos" "char_at str 0 = str ! 0"
        using True by (auto simp: char_at_def)
      let ?E = "if the (Some c) = char_at str match_pos then match_pos + 1
                else if the (Some c) = char_at str 0 then 1 else 0"
      have E: "?E = ?m1" by (simp add: feed_def ch)
      have rec: "UART_WaitForString_loop str timeout_ms ?m1 (if ?m1 > 0 then ResetTimeout s2 else s2) env1
                   = Some (r, sf, envf)"
        using 1(3) unf w r rd' by simp
      have T: "match_pos < strlen str" using True by (simp add: strlen_def)
      have w': "WaitForData timeout_ms s env = Some (UART_SUCCESS, s1, env1)" using w r by simp
      have nn: "\<not> UART_SUCCESS \<noteq> UART_SUCCESS" by simp
      have recE: "UART_WaitForString_loop str timeout_ms ?E (if 0 < ?E then ResetTimeout s2 else s2) env1
                    = Some (r, sf, envf)"
        using rec by (simp only: E)
      from 1(2) [OF T w' refl refl nn rd' [symmetric] refl nn refl refl refl recE]
      show ?thesis .
    qed
  qed
qed

text \<open>
  C2: for every non-empty pattern \<open>P\<close>, \<open>UART_WaitForString\<close> runs the matcher of the
  specification (increment on \<open>P ! m\<close>, else restart at 1 on \<open>P ! 0\<close>, else reset to 0) on
  the bytes it receives, and reports the match exactly when the match length reaches
  \<open>length P\<close>.  For all bytes \<open>cs\<close> it receives without the match having completed before
  the last of them, it is at the head of its loop with \<open>match_pos = fed P 0 cs\<close>, which never
  exceeds \<open>length P\<close>; when that is \<open>length P\<close> it returns \<open>UART_SUCCESS\<close> there, after
  exactly these bytes; when it is less and the next wait expires, it returns
  \<open>UART_ERROR_TIMEOUT\<close>.  Conversely, whenever it returns \<open>UART_SUCCESS\<close> the bytes it has
  received bring the matcher to \<open>length P\<close>, at the last of them for the first time; and
  it returns no status other than these two.  Fed \<^verbatim>\<open>OK\r\n\<close>, it returns after the
  fourth byte, and not after the third.
\<close>

theorem wait_for_string_matcher:
  assumes "P \<noteq> []"
  shows "(\<forall>cs s' env'.
            receive t (length cs) (ResetTimeout s) env = Some (cs, s', env') \<and>
            (\<forall>j<length cs. fed P 0 (take j cs) \<noteq> length P) \<longrightarrow>
              fed P 0 cs \<le> length P \<and>
              UART_WaitForString (Some P) t s env =
                UART_WaitForString_loop P t (fed P 0 cs)
                  (if fed P 0 cs > 0 then ResetTimeout s' else s') env' \<and>
              (fed P 0 cs = length P \<longrightarrow>
                 UART_WaitForString (Some P) t s env = Some (UART_SUCCESS, ResetTimeout s', env')) \<and>
              (fed P 0 cs < length P \<longrightarrow>
                 (\<forall>s1 env1. WaitForData t s' env' = Some (UART_ERROR_TIMEOUT, s1, env1) \<longrightarrow>
                    UART_WaitForString (Some P) t s env = Some (UART_ERROR_TIMEOUT, s1, env1)))) \<and>
         (\<forall>sf envf.
            UART_WaitForString (Some P) t s env = Some (UART_SUCCESS, sf, envf) \<longrightarrow>
              (\<exists>cs s'. receive t (length cs) (ResetTimeout s) env = Some (cs, s', envf) \<and>
                       (\<forall>j<length cs. fed P 0 (take j cs) \<noteq> length P) \<and>
                       fed P 0 cs = length P \<and> sf = ResetTimeout s')) \<and>
         (\<forall>r sf envf.
            UART_WaitForString (Some P) t s env = Some (r, sf, envf) \<longrightarrow>
              r = UART_SUCCESS \<or> r = UART_ERROR_TIMEOUT)"
proof (intro conjI allI impI)
  have start: "UART_WaitForString (Some P) t s env = UART_WaitForString_loop P t 0 (ResetTimeout s) env"
    using assms by (simp add: UART_WaitForString_def strlen_def)
  {
    fix cs s' env'
    assume h: "receive t (length cs) (ResetTimeout s) env = Some (cs, s', env') \<and>
               (\<forall>j<length cs. fed P 0 (take j cs) \<noteq> length P)"
    then have rc: "receive t (length cs) (ResetTimeout s) env = Some (cs, s', env')"
      and nm: "\<forall>j<length cs. fed P 0 (take j cs) \<noteq> length P" by simp_all
    have lt: "\<forall>j<length cs. fed P 0 (take j cs) < length P"
      using nm assms by (rule never_matched_less)
    then show le: "fed P 0 cs \<le> length P" by (intro fed_le) simp_all
    have s0: "cs = [] \<Longrightarrow> s' = ResetTimeout s \<and> env' = env" using rc by simp
    show sim: "UART_WaitForString (Some P) t s env =
             UART_WaitForString_loop P t (fed P 0 cs)
               (if fed P 0 cs > 0 then ResetTimeout s' else s') env'"
      using WaitForString_loop_sim [OF rc lt] s0 start by (cases "cs = []") simp_all
    {
      assume "fed P 0 cs = length P"
      then show "UART_WaitForString (Some P) t s env = Some (UART_SUCCESS, ResetTimeout s', env')"
        using sim assms by (simp add: WaitForString_loop_done)
    }
    {
      fix s1 env1
      assume m: "fed P 0 cs < length P"
        and w: "WaitForData t s' env' = Some (UART_ERROR_TIMEOUT, s1, env1)"
      have "WaitForData t (if fed P 0 cs > 0 then ResetTimeout s' else s') env'
              = Some (UART_ERROR_TIMEOUT, s1, env1)"
        using w by simp
      with m have "UART_WaitForString_loop P t (fed P 0 cs)
               (if fed P 0 cs > 0 then ResetTimeout s' else s') env' = Some (UART_ERROR_TIMEOUT, s1, env1)"
        by (rule WaitForString_loop_timeout)
      then show "UART_WaitForString (Some P) t s env = Some (UART_ERROR_TIMEOUT, s1, env1)"
        by (simp only: sim)
    }
  }
  {
    fix sf envf
    assume "UART_WaitForString (Some P) t s env = Some (UART_SUCCESS, sf, envf)"
    then have "UART_WaitForString_loop P t 0 (ResetTimeout s) env = Some (UART_SUCCESS, sf, envf)"
      by (simp only: start)
    from WaitForString_loop_success [OF _ this] obtain cs s'
      where rc: "receive t (length cs) (ResetTimeout s) env = Some (cs, s', envf)"
        and lt: "\<forall>j<length cs. fed P 0 (take j cs) < length P"
        and full: "fed P 0 cs = length P"
        and sf: "sf = (if cs = [] then ResetTimeout s else ResetTimeout s')"
      by auto
    have ne: "cs \<noteq> []" using full assms by auto
    have nm: "\<forall>j<length cs. fed P 0 (take j cs) \<noteq> length P" using lt by auto
    from rc nm full sf ne
    show "\<exists>cs s'. receive t (length cs) (ResetTimeout s) env = Some (cs, s', envf) \<and>
                       (\<forall>j<length cs. fed P 0 (take j cs) \<noteq> length P) \<and>
                       fed P 0 cs = length P \<and> sf = ResetTimeout s'"
      by (intro exI [of _ cs] exI [of _ s'] conjI) simp_all
  }
  {
    fix r sf envf
    assume "UART_WaitForString (Some P) t s env = Some (r, sf, envf)"
    then have "UART_WaitForString_loop P t 0 (ResetTimeout s) env = Some (r, sf, envf)"
      by (simp only: start)
    then show "r = UART_SUCCESS \<or> r = UART_ERROR_TIMEOUT"
      by (rule WaitForString_loop_status)
  }
qed

section \<open>Bytes that are already in the receive ring\<close>

lemma rx_holding_inv:
  assumes "length bs < UART_BUFFER_SIZE"
  shows "rb_inv (rx_buffer (rx_holding bs))" and "rb_contents (rx_buffer (rx_holding bs)) = bs"
proof -
  have u: "unat (of_nat (length bs) :: uint16_t) = length bs"
    using assms by (simp add: unat_of_nat UART_BUFFER_SIZE_def)
  show inv: "rb_inv (rx_buffer (rx_holding bs))"
    using assms by (simp add: rx_holding_def rb_inv_def u)
  have cnt: "rb_count (rx_buffer (rx_holding bs)) = length bs"
    using assms by (simp add: rb_count_alt [OF inv]) (simp add: rx_holding_def u)
  have "map (\<lambda>i. (bs @ replicate (UART_BUFFER_SIZE - length bs) NUL) ! (i mod UART_BUFFER_SIZE)) [0..<length bs]
          = map (\<lambda>i. bs ! i) [0..<length bs]"
    using assms by (intro map_cong) (simp_all add: nth_append)
  then show "rb_contents (rx_buffer (rx_holding bs)) = bs"
    unfolding rb_contents_def cnt by (simp add: rx_holding_def map_nth)
qed

lemma WaitForData_available:
  assumes "UART_Available s \<noteq> 0"
  shows "WaitForData t s env = Some (UART_SUCCESS, ResetTimeout s, env)"
  using assms unfolding WaitForData_def by (subst WaitForData_loop.simps) simp

lemma receive_preloaded:
  assumes "rb_inv (rx_buffer s)" "rb_contents (rx_buffer s) = cs @ rest" "cs \<noteq> []"
  shows "receive t (length cs) s env =
           Some (cs, (ResetTimeout s)\<lparr>rx_buffer := (rx_buffer s)\<lparr>tail :=
                   of_nat ((unat (tail (rx_buffer s)) + length cs) mod UART_BUFFER_SIZE)\<rparr>\<rparr>, env)"
  using assms
proof (induction cs arbitrary: s)
  case Nil
  then show ?case by simp
next
  case (Cons c cs)
  let ?s1 = "ResetTimeout s"
  let ?b = "rx_buffer s"
  have inv1: "rb_inv (rx_buffer ?s1)" and cont1: "rb_contents (rx_buffer ?s1) = c # (cs @ rest)"
    using Cons.prems by (simp_all add: ResetTimeout_def)
  have "unat (UART_Available s) \<noteq> 0"
    using Cons.prems by (simp add: Available_contents)
  then have nz: "UART_Available s \<noteq> 0" by auto
  have w: "WaitForData t s env = Some (UART_SUCCESS, ?s1, env)"
    using nz by (rule WaitForData_available)
  from ReadChar_nonempty [OF inv1 cont1, of NUL] obtain b'
    where rd: "UART_ReadChar (Some NUL) ?s1 = (UART_SUCCESS, Some c, ?s1\<lparr>rx_buffer := b'\<rparr>)"
      and inv': "rb_inv b'" and cont': "rb_contents b' = cs @ rest" by blast
  have nz1: "UART_Available ?s1 \<noteq> 0" using nz by simp
  have b': "b' = ?b\<lparr>tail := word_of_int (c_mod (uint (tail ?b) + 1) (int UART_BUFFER_SIZE))\<rparr>"
  proof -
    have "?s1\<lparr>rx_buffer := b'\<rparr> = ?s1\<lparr>rx_buffer := (rx_buffer ?s1)\<lparr>tail :=
                 word_of_int (c_mod (uint (tail (rx_buffer ?s1)) + 1) (int UART_BUFFER_SIZE))\<rparr>\<rparr>"
      using rd ReadChar_Available [OF nz1, of NUL] by simp
    then have "rx_buffer (?s1\<lparr>rx_buffer := b'\<rparr>) = rx_buffer (?s1\<lparr>rx_buffer := (rx_buffer ?s1)\<lparr>tail :=
                 word_of_int (c_mod (uint (tail (rx_buffer ?s1)) + 1) (int UART_BUFFER_SIZE))\<rparr>\<rparr>)"
      by (rule arg_cong)
    then show ?thesis by (simp add: ResetTimeout_def)
  qed
  have tl': "unat (tail b') = (unat (tail ?b) + 1) mod UART_BUFFER_SIZE"
    using next_index [of "tail ?b"] by (simp add: b')
  have t1: "tail b' = of_nat ((unat (tail ?b) + 1) mod UART_BUFFER_SIZE)"
    by (simp add: word_unat_eq_iff tl' small_nat_word [simplified] buffer_size_pos)
  show ?case
  proof (cases "cs = []")
    case True
    then show ?thesis using w rd b' t1 by simp
  next
    case False
    let ?s2 = "?s1\<lparr>rx_buffer := b'\<rparr>"
    have "receive t (length cs) ?s2 env =
           Some (cs, (ResetTimeout ?s2)\<lparr>rx_buffer := (rx_buffer ?s2)\<lparr>tail :=
                   of_nat ((unat (tail (rx_buffer ?s2)) + length cs) mod UART_BUFFER_SIZE)\<rparr>\<rparr>, env)"
      using inv' cont' False by (intro Cons.IH) simp_all
    moreover have "((unat (tail ?b) + 1) mod UART_BUFFER_SIZE + length cs) mod UART_BUFFER_SIZE
                     = (unat (tail ?b) + length (c # cs)) mod UART_BUFFER_SIZE"
      by (simp add: mod_add_left_eq)
    ultimately show ?thesis
      using w rd by (simp add: tl') (simp add: b' ResetTimeout_def HAL_GetTick_def)
  qed
qed

lemma fed_no_start: "\<forall>c\<in>set cs. c \<noteq> P ! 0 \<Longrightarrow> fed P 0 cs = 0"
  by (induction cs) (simp_all add: feed_def)

lemma receive_rx_holding:
  assumes "length (cs @ rest) < UART_BUFFER_SIZE" "cs \<noteq> []"
  shows "receive t (length cs) (ResetTimeout (rx_holding (cs @ rest))) env =
           Some (cs, (ResetTimeout (rx_holding (cs @ rest)))\<lparr>rx_buffer :=
                        (rx_buffer (rx_holding (cs @ rest)))\<lparr>tail := of_nat (length cs)\<rparr>\<rparr>, env)"
proof -
  let ?s = "ResetTimeout (rx_holding (cs @ rest))"
  have rx: "rx_buffer ?s = rx_buffer (rx_holding (cs @ rest))" by (simp add: ResetTimeout_def)
  have inv: "rb_inv (rx_buffer ?s)" and cont: "rb_contents (rx_buffer ?s) = cs @ rest"
    unfolding rx using assms(1) by (rule rx_holding_inv)+
  have "length cs < UART_BUFFER_SIZE" using assms(1) by simp
  then have m: "(unat (tail (rx_buffer (rx_holding (cs @ rest)))) + length cs) mod UART_BUFFER_SIZE = length cs"
    by (simp add: rx_holding_def)
  have idem: "ResetTimeout ?s = ?s" by (simp add: ResetTimeout_def HAL_GetTick_def)
  show ?thesis
    using receive_preloaded [OF inv cont assms(2), of t env] unfolding idem rx m .
qed

lemma Available_head_tail: "head (rx_buffer s) = tail (rx_buffer s) \<Longrightarrow> UART_Available s = 0"
  by (simp add: UART_Available_def c_mod_def UART_BUFFER_SIZE_def)

text \<open>
  The example of C2: with \<^verbatim>\<open>OK\r\n\<close> followed by \<^verbatim>\<open>XY\<close> in the receive ring,
  the matcher is at 1, 2 and 3 after the first three bytes, and \<open>UART_WaitForString\<close>
  returns \<open>UART_SUCCESS\<close> with exactly four bytes read.  With only \<^verbatim>\<open>OK\r\<close> in the
  ring and nothing more for the length of the timeout, it returns \<open>UART_ERROR_TIMEOUT\<close>.
\<close>

theorem wait_for_string_matcher_witness:
  "[CHR ''O'', CHR ''K'', CHR 0x0D, CHR 0x0A] \<noteq> [] \<and>
   receive 100 (length [CHR ''O'', CHR ''K'', CHR 0x0D, CHR 0x0A])
     (ResetTimeout (rx_holding ([CHR ''O'', CHR ''K'', CHR 0x0D, CHR 0x0A] @ ''XY''))) []
     = Some ([CHR ''O'', CHR ''K'', CHR 0x0D, CHR 0x0A],
             (ResetTimeout (rx_holding ([CHR ''O'', CHR ''K'', CHR 0x0D, CHR 0x0A] @ ''XY'')))
               \<lparr>rx_buffer := (rx_buffer (rx_holding ([CHR ''O'', CHR ''K'', CHR 0x0D, CHR 0x0A] @ ''XY'')))
                                \<lparr>tail := 4\<rparr>\<rparr>, []) \<and>
   fed [CHR ''O'', CHR ''K'', CHR 0x0D, CHR 0x0A] 0 [] = 0 \<and>
   fed [CHR ''O'', CHR ''K'', CHR 0x0D, CHR 0x0A] 0 [CHR ''O''] = 1 \<and>
   fed [CHR ''O'', CHR ''K'', CHR 0x0D, CHR 0x0A] 0 [CHR ''O'', CHR ''K''] = 2 \<and>
   fed [CHR ''O'', CHR ''K'', CHR 0x0D, CHR 0x0A] 0 [CHR ''O'', CHR ''K'', CHR 0x0D] = 3 \<and>
   fed [CHR ''O'', CHR ''K'', CHR 0x0D, CHR 0x0A] 0 [CHR ''O'', CHR ''K'', CHR 0x0D, CHR 0x0A] = 4 \<and>
   UART_WaitForString (Some [CHR ''O'', CHR ''K'', CHR 0x0D, CHR 0x0A]) 100
     (rx_holding ([CHR ''O'', CHR ''K'', CHR 0x0D, CHR 0x0A] @ ''XY'')) []
     = Some (UART_SUCCESS,
             (ResetTimeout (rx_holding ([CHR ''O'', CHR ''K'', CHR 0x0D, CHR 0x0A] @ ''XY'')))
               \<lparr>rx_buffer := (rx_buffer (rx_holding ([CHR ''O'', CHR ''K'', CHR 0x0D, CHR 0x0A] @ ''XY'')))
                                \<lparr>tail := 4\<rparr>\<rparr>, []) \<and>
   UART_WaitForString (Some [CHR ''O'', CHR ''K'', CHR 0x0D, CHR 0x0A]) 100
     (rx_holding ([CHR ''O'', CHR ''K'', CHR 0x0D] @ [])) (replicate (unat (100 :: uint32_t)) SysTick @ [])
     = Some (UART_ERROR_TIMEOUT,
             (ResetTimeout (rx_holding ([CHR ''O'', CHR ''K'', CHR 0x0D] @ [])))
               \<lparr>rx_buffer := (rx_buffer (rx_holding ([CHR ''O'', CHR ''K'', CHR 0x0D] @ [])))
                                \<lparr>tail := 3\<rparr>, uwTick := 100\<rparr>, [])"
proof -
  let ?P = "[CHR ''O'', CHR ''K'', CHR 0x0D, CHR 0x0A]"
  let ?s = "rx_holding (?P @ ''XY'')"
  let ?s' = "(ResetTimeout ?s)\<lparr>rx_buffer := (rx_buffer ?s)\<lparr>tail := 4\<rparr>\<rparr>"
  have ne: "?P \<noteq> []" by simp
  have "receive 100 (length ?P) (ResetTimeout ?s) [] =
          Some (?P, (ResetTimeout ?s)\<lparr>rx_buffer := (rx_buffer ?s)\<lparr>tail := of_nat (length ?P)\<rparr>\<rparr>, [])"
    by (rule receive_rx_holding) (simp_all add: UART_BUFFER_SIZE_def)
  then have rc: "receive 100 (length ?P) (ResetTimeout ?s) [] = Some (?P, ?s', [])" by simp
  have f: "fed ?P 0 [] = 0" "fed ?P 0 [CHR ''O''] = 1" "fed ?P 0 [CHR ''O'', CHR ''K''] = 2"
    "fed ?P 0 [CHR ''O'', CHR ''K'', CHR 0x0D] = 3" "fed ?P 0 ?P = 4"
    by (simp_all add: feed_def)
  have nm: "\<forall>j<length ?P. fed ?P 0 (take j ?P) \<noteq> length ?P"
  proof (intro allI impI)
    fix j assume "j < length ?P"
    then have "j \<in> {0, 1, 2, 3}" by auto
    then show "fed ?P 0 (take j ?P) \<noteq> length ?P" by (auto simp: feed_def)
  qed
  have idem: "ResetTimeout ?s' = ?s'" by (simp add: ResetTimeout_def HAL_GetTick_def)
  have f5: "fed ?P 0 ?P = length ?P" by (simp add: feed_def)
  note T = wait_for_string_matcher [OF ne, of 100 ?s "[]", THEN conjunct1, rule_format, of ?P ?s' "[]"]
  from T [OF conjI [OF rc nm], THEN conjunct2, THEN conjunct2, THEN conjunct1, THEN mp, OF f5]
  have "UART_WaitForString (Some ?P) 100 ?s [] = Some (UART_SUCCESS, ResetTimeout ?s', [])" .
  then have ok: "UART_WaitForString (Some ?P) 100 ?s [] = Some (UART_SUCCESS, ?s', [])"
    by (simp only: idem)
  let ?cs = "[CHR ''O'', CHR ''K'', CHR 0x0D]"
  let ?q = "rx_holding (?cs @ [])"
  let ?q' = "(ResetTimeout ?q)\<lparr>rx_buffer := (rx_buffer ?q)\<lparr>tail := 3\<rparr>\<rparr>"
  let ?env = "replicate (unat (100 :: uint32_t)) SysTick @ []"
  have "receive 100 (length ?cs) (ResetTimeout ?q) ?env =
          Some (?cs, (ResetTimeout ?q)\<lparr>rx_buffer := (rx_buffer ?q)\<lparr>tail := of_nat (length ?cs)\<rparr>\<rparr>, ?env)"
    by (rule receive_rx_holding) (simp_all add: UART_BUFFER_SIZE_def)
  then have rc3: "receive 100 (length ?cs) (ResetTimeout ?q) ?env = Some (?cs, ?q', ?env)"
    by (simp del: replicate_append_same)
  have nm3: "\<forall>j<length ?cs. fed ?P 0 (take j ?cs) \<noteq> length ?P"
  proof (intro allI impI)
    fix j assume "j < length ?cs"
    then have "j \<in> {0, 1, 2}" by auto
    then show "fed ?P 0 (take j ?cs) \<noteq> length ?P" by (auto simp: feed_def)
  qed
  have m3: "fed ?P 0 ?cs < length ?P" by (simp add: feed_def)
  have "head (rx_buffer ?q') = tail (rx_buffer ?q')" by (simp add: rx_holding_def)
  then have "UART_Available ?q' = 0" by (rule Available_head_tail)
  then have "WaitForData 100 ?q' ?env = Some (UART_ERROR_TIMEOUT, (ResetTimeout ?q')\<lparr>uwTick := uwTick ?q' + 100\<rparr>, [])"
    by (rule WaitForData_silence)
  moreover have "(ResetTimeout ?q')\<lparr>uwTick := uwTick ?q' + 100\<rparr>
                   = (ResetTimeout ?q)\<lparr>rx_buffer := (rx_buffer ?q)\<lparr>tail := 3\<rparr>, uwTick := 100\<rparr>"
    by (simp add: ResetTimeout_def HAL_GetTick_def rx_holding_def power_on_def)
  ultimately have w: "WaitForData 100 ?q' ?env
      = Some (UART_ERROR_TIMEOUT, (ResetTimeout ?q)\<lparr>rx_buffer := (rx_buffer ?q)\<lparr>tail := 3\<rparr>, uwTick := 100\<rparr>, [])"
    by (simp only:)
  note T3 = wait_for_string_matcher [OF ne, of 100 ?q ?env, THEN conjunct1, rule_format, of ?cs ?q' ?env]
  from T3 [OF conjI [OF rc3 nm3], THEN conjunct2, THEN conjunct2, THEN conjunct2, THEN mp, OF m3,
      rule_format, OF w]
  have to: "UART_WaitForString (Some ?P) 100 ?q ?env
      = Some (UART_ERROR_TIMEOUT, (ResetTimeout ?q)\<lparr>rx_buffer := (rx_buffer ?q)\<lparr>tail := 3\<rparr>, uwTick := 100\<rparr>, [])" .
  from ne rc f ok to show ?thesis by (intro conjI)
qed

section \<open>Copying until a token\<close>

lemma poke_eq:
  "pos + length cs \<le> length buf \<Longrightarrow> poke buf pos cs = take pos buf @ cs @ drop (pos + length cs) buf"
proof (induction cs arbitrary: buf pos)
  case Nil
  then show ?case by simp
next
  case (Cons c cs)
  then have p: "pos < length buf" by simp
  have "poke (buf[pos := c]) (pos + 1) cs
          = take (pos + 1) (buf[pos := c]) @ cs @ drop (pos + 1 + length cs) (buf[pos := c])"
    using Cons.prems by (intro Cons.IH) simp
  moreover have "take (pos + 1) (buf[pos := c]) = take pos buf @ [c]"
    using p by (simp add: take_Suc_conv_app_nth)
  ultimately show ?case by simp
qed

lemma poke_terminate:
  assumes "pos + length cs < length buf"
  shows "(poke buf pos cs)[pos + length cs := NUL] = take pos buf @ cs @ NUL # drop (pos + length cs + 1) buf"
proof -
  have "poke buf pos cs = (take pos buf @ cs) @ drop (pos + length cs) buf"
    using assms by (simp add: poke_eq)
  moreover have "length (take pos buf @ cs) = pos + length cs" using assms by simp
  ultimately have "(poke buf pos cs)[pos + length cs := NUL]
      = (take pos buf @ cs) @ (drop (pos + length cs) buf)[0 := NUL]"
    by (simp add: list_update_append)
  moreover have "(drop (pos + length cs) buf)[0 := NUL] = NUL # drop (pos + length cs + 1) buf"
    using assms by (cases "drop (pos + length cs) buf") (simp_all add: drop_Suc tl_drop [symmetric])
  ultimately show ?thesis by simp
qed

lemma CopyUntil_loop_step:
  assumes "buffer_pos < buffer_size - 1" "m < length P"
    and "WaitForData t s env = Some (UART_SUCCESS, s1, env1)"
    and "UART_ReadChar (Some NUL) s1 = (UART_SUCCESS, Some c, s2)"
  shows "UART_CopyUntil_loop P buf buffer_size t buffer_pos m s env =
           (if feed P m c = length P
            then Some (UART_SUCCESS, (buf[buffer_pos := c])[buffer_pos + 1 := NUL], s2, env1)
            else UART_CopyUntil_loop P (buf[buffer_pos := c]) buffer_size t (buffer_pos + 1) (feed P m c) s2 env1)"
proof -
  have ch: "char_at P m = P ! m" "char_at P 0 = P ! 0" using assms(2) by (auto simp: char_at_def)
  have one: "c \<noteq> P ! m \<Longrightarrow> c = P ! 0 \<Longrightarrow> length P \<noteq> 1"
    using assms(2) by auto
  show ?thesis
    using assms one
    by (subst UART_CopyUntil_loop.simps) (auto simp: strlen_def feed_def Let_def ch)
qed

lemma CopyUntil_loop_full:
  "\<not> buffer_pos < buffer_size - 1 \<Longrightarrow>
     UART_CopyUntil_loop P buf buffer_size t buffer_pos m s env
       = Some (UART_ERROR_BUFFER_FULL, buf[buffer_pos := NUL], s, env)"
  by (subst UART_CopyUntil_loop.simps) simp

lemma CopyUntil_loop_sim:
  assumes "receive t (length cs) s env = Some (cs, s', env')"
    and "\<forall>j<length cs. fed P m (take j cs) < length P"
    and "buffer_pos + length cs \<le> buffer_size - 1"
  shows "UART_CopyUntil_loop P buf buffer_size t buffer_pos m s env =
           (if cs \<noteq> [] \<and> fed P m cs = length P
            then Some (UART_SUCCESS, (poke buf buffer_pos cs)[buffer_pos + length cs := NUL], s', env')
            else UART_CopyUntil_loop P (poke buf buffer_pos cs) buffer_size t
                   (buffer_pos + length cs) (fed P m cs) s' env')"
  using assms
proof (induction cs arbitrary: buf buffer_pos m s env)
  case Nil
  then show ?case by simp
next
  case (Cons c cs)
  from Cons.prems(1) have "receive t (Suc (length cs)) s env = Some (c # cs, s', env')" by simp
  then obtain s1 env1 s2 where w: "WaitForData t s env = Some (UART_SUCCESS, s1, env1)"
    and rd: "UART_ReadChar (Some NUL) s1 = (UART_SUCCESS, Some c, s2)"
    and rest: "receive t (length cs) s2 env1 = Some (cs, s', env')"
    by (rule receive_Suc)
  from Cons.prems(2) have m: "m < length P" by fastforce
  from Cons.prems(3) have pos: "buffer_pos < buffer_size - 1" by simp
  note step = CopyUntil_loop_step [OF pos m w rd, of buf]
  show ?case
  proof (cases "feed P m c = length P")
    case True
    have "cs = []"
    proof (rule ccontr)
      assume "cs \<noteq> []"
      then have "Suc 0 < length (c # cs)" by simp
      with Cons.prems(2) have "fed P m (take (Suc 0) (c # cs)) < length P" by blast
      with True show False by simp
    qed
    with rest have "s' = s2" "env' = env1" by simp_all
    with step True \<open>cs = []\<close> show ?thesis by simp
  next
    case False
    have "\<forall>j<length cs. fed P (feed P m c) (take j cs) < length P"
    proof (intro allI impI)
      fix j assume "j < length cs"
      then have "Suc j < length (c # cs)" by simp
      with Cons.prems(2) have "fed P m (take (Suc j) (c # cs)) < length P" by blast
      then show "fed P (feed P m c) (take j cs) < length P" by simp
    qed
    moreover have "buffer_pos + 1 + length cs \<le> buffer_size - 1" using Cons.prems(3) by simp
    ultimately have IH: "UART_CopyUntil_loop P (buf[buffer_pos := c]) buffer_size t (buffer_pos + 1) (feed P m c) s2 env1 =
           (if cs \<noteq> [] \<and> fed P (feed P m c) cs = length P
            then Some (UART_SUCCESS, (poke (buf[buffer_pos := c]) (buffer_pos + 1) cs)[buffer_pos + 1 + length cs := NUL], s', env')
            else UART_CopyUntil_loop P (poke (buf[buffer_pos := c]) (buffer_pos + 1) cs) buffer_size t
                   (buffer_pos + 1 + length cs) (fed P (feed P m c) cs) s' env')"
      using rest by (intro Cons.IH)
    show ?thesis
    proof (cases "cs = []")
      case True
      with rest have "s' = s2" "env' = env1" by simp_all
      with step False True show ?thesis by simp
    next
      case nonempty: False
      with step False IH show ?thesis by simp
    qed
  qed
qed

text \<open>
  C3: for every non-empty end pattern \<open>P\<close> and all bytes \<open>cs\<close> that arrive in time, at
  whose last byte the matcher completes for the first time, and that are at most
  \<open>buffer_size - 1\<close>, \<open>UART_CopyUntil\<close> returns \<open>UART_SUCCESS\<close> with all of \<open>cs\<close> (the
  bytes of the match included) at the start of the destination, followed by NUL, the
  rest of the destination unchanged, in the state reached after exactly these bytes.
  Fed \<^verbatim>\<open>hello\r\n\<close> with the pattern \<^verbatim>\<open>\r\n\<close> and 16 bytes of destination it
  copies the 7 bytes.
\<close>

theorem copy_until_match:
  assumes "P \<noteq> []" "buffer_size \<le> length buf"
    and "receive t (length cs) (ResetTimeout s) env = Some (cs, s', env')"
    and "\<forall>j<length cs. fed P 0 (take j cs) \<noteq> length P"
    and "fed P 0 cs = length P"
    and "length cs \<le> buffer_size - 1"
  shows "UART_CopyUntil (Some P) (Some buf) buffer_size t s env
           = Some (UART_SUCCESS, Some (cs @ NUL # drop (length cs + 1) buf), s', env')"
proof -
  have ne: "cs \<noteq> []" using assms(1,5) by auto
  with assms(6) have sz: "buffer_size \<noteq> 0" "length cs < length buf"
    using assms(2) by (cases buffer_size; simp)+
  have lt: "\<forall>j<length cs. fed P 0 (take j cs) < length P"
    using assms(4,1) by (rule never_matched_less)
  have "UART_CopyUntil_loop P buf buffer_size t 0 0 (ResetTimeout s) env
          = Some (UART_SUCCESS, (poke buf 0 cs)[0 + length cs := NUL], s', env')"
    using CopyUntil_loop_sim [OF assms(3) lt, of 0 buffer_size buf] assms(5,6) ne by simp
  moreover have "(poke buf 0 cs)[0 + length cs := NUL] = take 0 buf @ cs @ NUL # drop (0 + length cs + 1) buf"
    using sz(2) by (intro poke_terminate) simp
  ultimately show ?thesis using sz(1) by (simp add: UART_CopyUntil_def)
qed

theorem copy_until_match_witness:
  "[CHR 0x0D, CHR 0x0A] \<noteq> [] \<and> (16::nat) \<le> length (replicate 16 CHR ''#'') \<and>
   fed [CHR 0x0D, CHR 0x0A] 0 ''hello'' = 0 \<and>
   fed [CHR 0x0D, CHR 0x0A] 0 (''hello'' @ [CHR 0x0D]) = 1 \<and>
   fed [CHR 0x0D, CHR 0x0A] 0 (''hello'' @ [CHR 0x0D, CHR 0x0A]) = length [CHR 0x0D, CHR 0x0A] \<and>
   length (''hello'' @ [CHR 0x0D, CHR 0x0A]) \<le> (16::nat) - 1 \<and>
   UART_CopyUntil (Some [CHR 0x0D, CHR 0x0A]) (Some (replicate 16 CHR ''#'')) 16 200
     (rx_holding ((''hello'' @ [CHR 0x0D, CHR 0x0A]) @ ''next'')) []
     = Some (UART_SUCCESS,
             Some (''hello'' @ [CHR 0x0D, CHR 0x0A] @ NUL # replicate 8 CHR ''#''),
             (ResetTimeout (rx_holding ((''hello'' @ [CHR 0x0D, CHR 0x0A]) @ ''next'')))
               \<lparr>rx_buffer := (rx_buffer (rx_holding ((''hello'' @ [CHR 0x0D, CHR 0x0A]) @ ''next'')))
                                \<lparr>tail := 7\<rparr>\<rparr>, [])"
proof -
  let ?P = "[CHR 0x0D, CHR 0x0A]"
  let ?cs = "''hello'' @ [CHR 0x0D, CHR 0x0A]"
  let ?s = "rx_holding (?cs @ ''next'')"
  let ?s' = "(ResetTimeout ?s)\<lparr>rx_buffer := (rx_buffer ?s)\<lparr>tail := 7\<rparr>\<rparr>"
  have ne: "?P \<noteq> []" and sz: "(16::nat) \<le> length (replicate 16 CHR ''#'')" by simp_all
  have "receive 200 (length ?cs) (ResetTimeout ?s) [] =
          Some (?cs, (ResetTimeout ?s)\<lparr>rx_buffer := (rx_buffer ?s)\<lparr>tail := of_nat (length ?cs)\<rparr>\<rparr>, [])"
    by (rule receive_rx_holding) (simp_all add: UART_BUFFER_SIZE_def)
  then have rc: "receive 200 (length ?cs) (ResetTimeout ?s) [] = Some (?cs, ?s', [])" by simp
  have f: "fed ?P 0 ''hello'' = 0" "fed ?P 0 (''hello'' @ [CHR 0x0D]) = 1" "fed ?P 0 ?cs = length ?P"
    by (simp_all add: feed_def)
  have nm: "\<forall>j<length ?cs. fed ?P 0 (take j ?cs) \<noteq> length ?P"
  proof (intro allI impI)
    fix j assume "j < length ?cs"
    then have "j \<in> {0, 1, 2, 3, 4, 5, 6}" by auto
    then show "fed ?P 0 (take j ?cs) \<noteq> length ?P" by (auto simp: feed_def)
  qed
  have le: "length ?cs \<le> (16::nat) - 1" by simp
  from copy_until_match [OF ne sz rc nm f(3) le]
  have "UART_CopyUntil (Some ?P) (Some (replicate 16 CHR ''#'')) 16 200 ?s []
          = Some (UART_SUCCESS, Some (?cs @ NUL # drop (length ?cs + 1) (replicate 16 CHR ''#'')), ?s', [])" .
  then have "UART_CopyUntil (Some ?P) (Some (replicate 16 CHR ''#'')) 16 200 ?s []
          = Some (UART_SUCCESS, Some (''hello'' @ [CHR 0x0D, CHR 0x0A] @ NUL # replicate 8 CHR ''#''), ?s', [])"
    by simp
  with ne sz f le show ?thesis by blast
qed

text \<open>
  C4: when \<open>buffer_size - 1\<close> bytes \<open>cs\<close> arrive in time and the matcher completes at none
  of them, \<open>UART_CopyUntil\<close> returns \<open>UART_ERROR_BUFFER_FULL\<close> and the destination holds
  \<open>cs\<close> followed by NUL.
\<close>

theorem copy_until_full:
  assumes "0 < buffer_size" "buffer_size \<le> length buf"
    and "receive t (buffer_size - 1) (ResetTimeout s) env = Some (cs, s', env')"
    and "\<forall>j\<le>length cs. fed P 0 (take j cs) \<noteq> length P"
  shows "UART_CopyUntil (Some P) (Some buf) buffer_size t s env
           = Some (UART_ERROR_BUFFER_FULL, Some (cs @ NUL # drop buffer_size buf), s', env')"
proof -
  have len: "length cs = buffer_size - 1" using assms(3) by (rule receive_length)
  have P: "P \<noteq> []" using assms(4) by fastforce
  have rc: "receive t (length cs) (ResetTimeout s) env = Some (cs, s', env')" using assms(3) len by simp
  have "\<forall>j<length cs. fed P 0 (take j cs) \<noteq> length P" using assms(4) by simp
  then have lt: "\<forall>j<length cs. fed P 0 (take j cs) < length P"
    using P by (rule never_matched_less)
  have nm: "fed P 0 cs \<noteq> length P" using assms(4) by fastforce
  have "UART_CopyUntil_loop P buf buffer_size t 0 0 (ResetTimeout s) env
          = UART_CopyUntil_loop P (poke buf 0 cs) buffer_size t (0 + length cs) (fed P 0 cs) s' env'"
    using CopyUntil_loop_sim [OF rc lt, of 0 buffer_size buf] nm len by simp
  also have "\<dots> = Some (UART_ERROR_BUFFER_FULL, (poke buf 0 cs)[0 + length cs := NUL], s', env')"
    using len by (intro CopyUntil_loop_full) simp
  finally have "UART_CopyUntil_loop P buf buffer_size t 0 0 (ResetTimeout s) env
          = Some (UART_ERROR_BUFFER_FULL, (poke buf 0 cs)[0 + length cs := NUL], s', env')" .
  moreover have "(poke buf 0 cs)[0 + length cs := NUL] = take 0 buf @ cs @ NUL # drop (0 + length cs + 1) buf"
    using len assms(1,2) by (intro poke_terminate) simp
  moreover have "length cs + 1 = buffer_size" using len assms(1) by simp
  ultimately show ?thesis using assms(1) by (simp add: UART_CopyUntil_def)
qed

theorem copy_until_full_witness:
  "(0::nat) < 16 \<and> (16::nat) \<le> length (replicate 16 CHR ''#'') \<and>
   CHR 0x0D \<notin> set ''0123456789abcde'' \<and>
   UART_CopyUntil (Some [CHR 0x0D, CHR 0x0A]) (Some (replicate 16 CHR ''#'')) 16 200
     (rx_holding (''0123456789abcde'' @ (''fgh'' @ [CHR 0x0D, CHR 0x0A]))) []
     = Some (UART_ERROR_BUFFER_FULL,
             Some (''0123456789abcde'' @ [NUL]),
             (ResetTimeout (rx_holding (''0123456789abcde'' @ (''fgh'' @ [CHR 0x0D, CHR 0x0A]))))
               \<lparr>rx_buffer := (rx_buffer (rx_holding (''0123456789abcde'' @ (''fgh'' @ [CHR 0x0D, CHR 0x0A]))))
                                \<lparr>tail := 15\<rparr>\<rparr>, [])"
proof -
  let ?P = "[CHR 0x0D, CHR 0x0A]"
  let ?cs = "''0123456789abcde''"
  let ?s = "rx_holding (?cs @ (''fgh'' @ [CHR 0x0D, CHR 0x0A]))"
  let ?s' = "(ResetTimeout ?s)\<lparr>rx_buffer := (rx_buffer ?s)\<lparr>tail := 15\<rparr>\<rparr>"
  have pos: "(0::nat) < 16" and sz: "(16::nat) \<le> length (replicate 16 CHR ''#'')" by simp_all
  have "receive 200 (length ?cs) (ResetTimeout ?s) [] =
          Some (?cs, (ResetTimeout ?s)\<lparr>rx_buffer := (rx_buffer ?s)\<lparr>tail := of_nat (length ?cs)\<rparr>\<rparr>, [])"
    by (rule receive_rx_holding) (simp_all add: UART_BUFFER_SIZE_def)
  moreover have "length ?cs = 16 - 1" "of_nat (length ?cs) = (15 :: uint16_t)" by simp_all
  ultimately have rc: "receive 200 (16 - 1) (ResetTimeout ?s) [] = Some (?cs, ?s', [])" by (simp only:)
  have cr: "CHR 0x0D \<notin> set ?cs" by simp
  have nm: "\<forall>j\<le>length ?cs. fed ?P 0 (take j ?cs) \<noteq> length ?P"
  proof (intro allI impI)
    fix j
    have "\<forall>c\<in>set (take j ?cs). c \<noteq> ?P ! 0" using cr by (auto dest: in_set_takeD)
    then have "fed ?P 0 (take j ?cs) = 0" by (rule fed_no_start)
    then show "fed ?P 0 (take j ?cs) \<noteq> length ?P" by simp
  qed
  from copy_until_full [OF pos sz rc nm]
  have "UART_CopyUntil (Some ?P) (Some (replicate 16 CHR ''#'')) 16 200 ?s []
          = Some (UART_ERROR_BUFFER_FULL, Some (?cs @ NUL # drop 16 (replicate 16 CHR ''#'')), ?s', [])" .
  then have "UART_CopyUntil (Some ?P) (Some (replicate 16 CHR ''#'')) 16 200 ?s []
          = Some (UART_ERROR_BUFFER_FULL, Some (?cs @ [NUL]), ?s', [])"
    by simp
  with pos sz cr show ?thesis by blast
qed

section \<open>Timeouts while waiting for a token\<close>

lemma trickle_simps [simp]:
  "trickle d [] = []"
  "trickle d (c # cs) = replicate d SysTick @ IRQ True c False # trickle d cs"
  by (simp_all add: trickle_def)

lemma ISR_receive:
  assumes "RXNEIE s"
  shows "UART_ISR_Handler True c False s = s\<lparr>rx_buffer := snd (StoreChar c (rx_buffer s))\<rparr>"
  using assms by (simp add: UART_ISR_Handler_def Let_def)

lemma Available_empty: "rb_inv (rx_buffer s) \<Longrightarrow> rb_contents (rx_buffer s) = [] \<Longrightarrow> UART_Available s = 0"
  using Available_contents [of s] by (simp add: unat_eq_0)

lemma WaitForData_byte_after:
  assumes "rb_inv (rx_buffer s)" "rb_contents (rx_buffer s) = []" "RXNEIE s" "d < unat t"
  shows "\<exists>b. rb_inv b \<and> rb_contents b = [c] \<and>
             WaitForData t s (replicate d SysTick @ IRQ True c False # env)
               = Some (UART_SUCCESS, (ResetTimeout s)\<lparr>uwTick := uwTick s + of_nat d, rx_buffer := b\<rparr>, env)"
proof -
  let ?s0 = "ResetTimeout s"
  let ?s1 = "?s0\<lparr>uwTick := uwTick ?s0 + of_nat d\<rparr>"
  have a0: "UART_Available ?s0 = 0" using assms(1,2) by (simp add: Available_empty)
  have e0: "unat (uwTick ?s0 - timeout_start ?s0) + d \<le> unat t"
    using assms(4) by (simp add: ResetTimeout_def HAL_GetTick_def)
  have ticks: "WaitForData_loop t ?s0 (replicate d SysTick @ IRQ True c False # env)
                 = WaitForData_loop t ?s1 (IRQ True c False # env)"
    using a0 e0 by (rule WaitForData_loop_ticks)
  have "d < 2 ^ 32" using assms(4) unsigned_less [of t, where 'a = nat] by simp
  then have "unat (of_nat d :: uint32_t) = d" by (simp add: unat_of_nat)
  then have ne: "\<not> IsTimeOutExpired t ?s1"
    using assms(4) by (simp add: IsTimeOutExpired_def ResetTimeout_def HAL_GetTick_def word_le_nat_alt)
  have rx1: "rx_buffer ?s1 = rx_buffer s" and en1: "RXNEIE ?s1" using assms(3) by (simp_all add: ResetTimeout_def)
  have "rb_count (rx_buffer s) < UART_BUFFER_SIZE - 1"
    using assms(2) rb_contents_length [of "rx_buffer s"] buffer_size_pos by simp
  from StoreChar_room [OF assms(1) this, of c] obtain b
    where st: "StoreChar c (rx_buffer s) = (UART_SUCCESS, b)" and inv: "rb_inv b"
      and cont: "rb_contents b = [c]" using assms(2) by auto
  let ?s2 = "?s1\<lparr>rx_buffer := b\<rparr>"
  have irq: "occur (IRQ True c False) ?s1 = ?s2"
    using st by (simp add: ISR_receive [OF en1] rx1)
  have "unat (UART_Available ?s2) = length (rb_contents (rx_buffer ?s2))"
    using inv by (intro Available_contents) simp
  then have nz: "UART_Available ?s2 \<noteq> 0" using cont by auto
  have "WaitForData_loop t ?s1 (IRQ True c False # env) = WaitForData_loop t ?s2 env"
    using a0 ne irq by (subst WaitForData_loop.simps) simp
  also have "\<dots> = Some (UART_SUCCESS, ?s2, env)"
    using nz by (subst WaitForData_loop.simps) simp
  finally have "WaitForData t s (replicate d SysTick @ IRQ True c False # env) = Some (UART_SUCCESS, ?s2, env)"
    using ticks by (simp add: WaitForData_def)
  moreover have "?s2 = (ResetTimeout s)\<lparr>uwTick := uwTick s + of_nat d, rx_buffer := b\<rparr>"
    by (simp add: ResetTimeout_def)
  ultimately show ?thesis using inv cont by auto
qed

lemma receive_trickle:
  assumes "rb_inv (rx_buffer s)" "rb_contents (rx_buffer s) = []" "RXNEIE s" "d < unat t"
  shows "\<exists>s'. receive t (length cs) s (trickle d cs @ env) = Some (cs, s', env) \<and>
              uwTick s' = uwTick s + of_nat (d * length cs) \<and>
              rb_inv (rx_buffer s') \<and> rb_contents (rx_buffer s') = [] \<and> RXNEIE s'"
  using assms(1-3)
proof (induction cs arbitrary: s)
  case Nil
  then show ?case by simp
next
  case (Cons c cs)
  from WaitForData_byte_after [OF Cons.prems assms(4), of c "trickle d cs @ env"] obtain b
    where inv: "rb_inv b" and cont: "rb_contents b = [c]"
      and w: "WaitForData t s (replicate d SysTick @ IRQ True c False # trickle d cs @ env)
               = Some (UART_SUCCESS, (ResetTimeout s)\<lparr>uwTick := uwTick s + of_nat d, rx_buffer := b\<rparr>, trickle d cs @ env)"
    by blast
  let ?s1 = "(ResetTimeout s)\<lparr>uwTick := uwTick s + of_nat d, rx_buffer := b\<rparr>"
  have inv1: "rb_inv (rx_buffer ?s1)" and cont1: "rb_contents (rx_buffer ?s1) = [c]"
    using inv cont by simp_all
  from ReadChar_nonempty [OF inv1 cont1, of NUL] obtain b'
    where rd: "UART_ReadChar (Some NUL) ?s1 = (UART_SUCCESS, Some c, ?s1\<lparr>rx_buffer := b'\<rparr>)"
      and inv': "rb_inv b'" and cont': "rb_contents b' = []" by blast
  let ?s2 = "?s1\<lparr>rx_buffer := b'\<rparr>"
  have "rb_inv (rx_buffer ?s2)" "rb_contents (rx_buffer ?s2) = []" "RXNEIE ?s2"
    using inv' cont' Cons.prems(3) by (simp_all add: ResetTimeout_def)
  from Cons.IH [OF this] obtain s'
    where rc: "receive t (length cs) ?s2 (trickle d cs @ env) = Some (cs, s', env)"
      and tick: "uwTick s' = uwTick ?s2 + of_nat (d * length cs)"
      and post: "rb_inv (rx_buffer s')" "rb_contents (rx_buffer s') = []" "RXNEIE s'"
    by blast
  have "receive t (length (c # cs)) s (trickle d (c # cs) @ env) = Some (c # cs, s', env)"
    using w rd rc by simp
  moreover have "uwTick s' = uwTick s + of_nat (d * length (c # cs))"
    using tick by (simp add: ResetTimeout_def)
  ultimately show ?case using post by blast
qed

text \<open>
  C8: let the receive ring be empty and let bytes \<open>cs\<close> arrive one every \<open>d\<close> milliseconds,
  with \<open>d\<close> less than the timeout \<open>t\<close>, the match not completing before the last of them.
  Then after all of them, \<open>d * length cs\<close> milliseconds after the call, however long
  that is, \<open>UART_WaitForString\<close> has not timed out: it is at the head of its loop, or has
  returned \<open>UART_SUCCESS\<close> if the match is complete; whenever the match length is then
  greater than 0 the timeout has just been restarted (\<open>timeout_start\<close> is the current
  tick).  And if the match is not complete and no byte arrives for the next \<open>t\<close>
  milliseconds, it returns \<open>UART_ERROR_TIMEOUT\<close> exactly \<open>t\<close> milliseconds later: each
  wait for a byte is bounded by \<open>t\<close>, the whole wait is not.
\<close>

theorem wait_for_string_progress_timeout:
  assumes "P \<noteq> []" "rb_inv (rx_buffer s)" "rb_contents (rx_buffer s) = []" "RXNEIE s" "d < unat t"
    and "\<forall>j<length cs. fed P 0 (take j cs) \<noteq> length P"
  shows "(\<exists>s'. UART_WaitForString (Some P) t s (trickle d cs @ env)
                 = UART_WaitForString_loop P t (fed P 0 cs) s' env \<and>
               uwTick s' = uwTick s + of_nat (d * length cs) \<and>
               (0 < fed P 0 cs \<longrightarrow> timeout_start s' = uwTick s') \<and>
               (fed P 0 cs = length P \<longrightarrow>
                  UART_WaitForString (Some P) t s (trickle d cs @ env) = Some (UART_SUCCESS, s', env))) \<and>
         (fed P 0 cs < length P \<longrightarrow>
            (\<exists>s''. UART_WaitForString (Some P) t s (trickle d cs @ replicate (unat t) SysTick @ env)
                      = Some (UART_ERROR_TIMEOUT, s'', env) \<and>
                    uwTick s'' = uwTick s + of_nat (d * length cs) + t))"
proof -
  let ?s0 = "ResetTimeout s"
  let ?m = "fed P 0 cs"
  have pre: "rb_inv (rx_buffer ?s0)" "rb_contents (rx_buffer ?s0) = []" "RXNEIE ?s0"
    using assms(2-4) by (simp_all add: ResetTimeout_def)
  have lt: "\<forall>j<length cs. fed P 0 (take j cs) < length P"
    using assms(6,1) by (rule never_matched_less)
  have start: "UART_WaitForString (Some P) t s E = UART_WaitForString_loop P t 0 ?s0 E" for E
    using assms(1) by (simp add: UART_WaitForString_def strlen_def)
  have run: "\<exists>S. UART_WaitForString (Some P) t s (trickle d cs @ E) = UART_WaitForString_loop P t ?m S E \<and>
                 uwTick S = uwTick s + of_nat (d * length cs) \<and>
                 (0 < ?m \<longrightarrow> timeout_start S = uwTick S) \<and>
                 rb_inv (rx_buffer S) \<and> rb_contents (rx_buffer S) = []" for E
  proof -
    from receive_trickle [OF pre assms(5), of cs E] obtain s'
      where rc: "receive t (length cs) ?s0 (trickle d cs @ E) = Some (cs, s', E)"
        and tick: "uwTick s' = uwTick ?s0 + of_nat (d * length cs)"
        and post: "rb_inv (rx_buffer s')" "rb_contents (rx_buffer s') = []"
      by blast
    let ?S = "if cs = [] then ?s0 else if ?m > 0 then ResetTimeout s' else s'"
    have "UART_WaitForString_loop P t 0 ?s0 (trickle d cs @ E) = UART_WaitForString_loop P t ?m ?S E"
      using rc lt by (rule WaitForString_loop_sim)
    then have a: "UART_WaitForString (Some P) t s (trickle d cs @ E) = UART_WaitForString_loop P t ?m ?S E"
      by (simp only: start)
    have b: "uwTick ?S = uwTick s + of_nat (d * length cs)"
      using tick by (simp add: ResetTimeout_def)
    have c: "0 < ?m \<longrightarrow> timeout_start ?S = uwTick ?S"
      by (cases "cs = []") (simp_all add: ResetTimeout_def HAL_GetTick_def)
    have d: "rb_inv (rx_buffer ?S)" and e: "rb_contents (rx_buffer ?S) = []"
      using pre post by (simp_all add: ResetTimeout_def)
    from a b c d e show ?thesis by (intro exI [of _ ?S] conjI)
  qed
  have first: "\<exists>s'. UART_WaitForString (Some P) t s (trickle d cs @ env)
                 = UART_WaitForString_loop P t ?m s' env \<and>
               uwTick s' = uwTick s + of_nat (d * length cs) \<and>
               (0 < ?m \<longrightarrow> timeout_start s' = uwTick s') \<and>
               (?m = length P \<longrightarrow>
                  UART_WaitForString (Some P) t s (trickle d cs @ env) = Some (UART_SUCCESS, s', env))"
  proof -
    from run [of env] obtain S
      where 1: "UART_WaitForString (Some P) t s (trickle d cs @ env) = UART_WaitForString_loop P t ?m S env"
        and 2: "uwTick S = uwTick s + of_nat (d * length cs)"
        and 3: "0 < ?m \<longrightarrow> timeout_start S = uwTick S"
      by (elim exE conjE)
    have "?m = length P \<longrightarrow> UART_WaitForString (Some P) t s (trickle d cs @ env) = Some (UART_SUCCESS, S, env)"
      using 1 by (simp add: WaitForString_loop_done)
    with 1 2 3 show ?thesis by (intro exI [of _ S] conjI)
  qed
  have second: "\<exists>s''. UART_WaitForString (Some P) t s (trickle d cs @ replicate (unat t) SysTick @ env)
                      = Some (UART_ERROR_TIMEOUT, s'', env) \<and>
                    uwTick s'' = uwTick s + of_nat (d * length cs) + t"
    if m: "?m < length P"
  proof -
    from run [of "replicate (unat t) SysTick @ env"] obtain S
      where 1: "UART_WaitForString (Some P) t s (trickle d cs @ replicate (unat t) SysTick @ env)
                  = UART_WaitForString_loop P t ?m S (replicate (unat t) SysTick @ env)"
        and 2: "uwTick S = uwTick s + of_nat (d * length cs)"
        and 4: "rb_inv (rx_buffer S)" "rb_contents (rx_buffer S) = []"
      by (elim exE conjE)
    have "UART_Available S = 0" using 4 by (rule Available_empty)
    then have "WaitForData t S (replicate (unat t) SysTick @ env)
           = Some (UART_ERROR_TIMEOUT, (ResetTimeout S)\<lparr>uwTick := uwTick S + t\<rparr>, env)"
      by (rule WaitForData_silence)
    with m have "UART_WaitForString_loop P t ?m S (replicate (unat t) SysTick @ env)
           = Some (UART_ERROR_TIMEOUT, (ResetTimeout S)\<lparr>uwTick := uwTick S + t\<rparr>, env)"
      by (rule WaitForString_loop_timeout)
    with 1 2 show ?thesis by simp
  qed
  from first second show ?thesis by (intro conjI impI)
qed

theorem wait_for_string_progress_timeout_witness:
  "''OK'' \<noteq> [] \<and> rb_inv (rx_buffer (rx_holding [])) \<and> rb_contents (rx_buffer (rx_holding [])) = [] \<and>
   RXNEIE (rx_holding []) \<and> 2 < unat (3 :: uint32_t) \<and>
   fed ''OK'' 0 [] = 0 \<and> fed ''OK'' 0 ''O'' = 1 \<and> fed ''OK'' 0 ''OO'' = 1 \<and>
   fed ''OK'' 0 ''OOO'' = 1 \<and> fed ''OK'' 0 ''OOOK'' = 2 \<and>
   (\<exists>s'. UART_WaitForString (Some ''OK'') 3 (rx_holding []) (trickle 2 ''OOOK'' @ [])
            = Some (UART_SUCCESS, s', []) \<and> uwTick s' = 8) \<and>
   (\<exists>s''. UART_WaitForString (Some ''OK'') 3 (rx_holding [])
             (trickle 2 ''OOO'' @ replicate (unat (3 :: uint32_t)) SysTick @ [])
            = Some (UART_ERROR_TIMEOUT, s'', []) \<and> uwTick s'' = 9)"
proof -
  have h: "''OK'' \<noteq> []" "rb_inv (rx_buffer (rx_holding []))" "rb_contents (rx_buffer (rx_holding [])) = []"
    "RXNEIE (rx_holding [])" "2 < unat (3 :: uint32_t)"
    using rx_holding_inv [of "[]"] by (simp_all add: UART_BUFFER_SIZE_def rx_holding_def)
  have f: "fed ''OK'' 0 [] = 0" "fed ''OK'' 0 ''O'' = 1" "fed ''OK'' 0 ''OO'' = 1"
    "fed ''OK'' 0 ''OOO'' = 1" "fed ''OK'' 0 ''OOOK'' = 2"
    by (simp_all add: feed_def)
  have t0: "uwTick (rx_holding []) = 0" by (simp add: rx_holding_def power_on_def)
  have nm4: "\<forall>j<length ''OOOK''. fed ''OK'' 0 (take j ''OOOK'') \<noteq> length ''OK''"
  proof (intro allI impI)
    fix j assume "j < length ''OOOK''"
    then have "j \<in> {0, 1, 2, 3}" by auto
    then show "fed ''OK'' 0 (take j ''OOOK'') \<noteq> length ''OK''" by (auto simp: feed_def)
  qed
  have nm3: "\<forall>j<length ''OOO''. fed ''OK'' 0 (take j ''OOO'') \<noteq> length ''OK''"
  proof (intro allI impI)
    fix j assume "j < length ''OOO''"
    then have "j \<in> {0, 1, 2}" by auto
    then show "fed ''OK'' 0 (take j ''OOO'') \<noteq> length ''OK''" by (auto simp: feed_def)
  qed
  have m4: "fed ''OK'' 0 ''OOOK'' = length ''OK''" and m3: "fed ''OK'' 0 ''OOO'' < length ''OK''"
    by (simp_all add: feed_def)
  note T4 = wait_for_string_progress_timeout [OF h nm4, of "[]"]
  from T4 [THEN conjunct1] obtain s'
    where "uwTick s' = uwTick (rx_holding []) + of_nat (2 * length ''OOOK'')"
      and "fed ''OK'' 0 ''OOOK'' = length ''OK'' \<longrightarrow>
             UART_WaitForString (Some ''OK'') 3 (rx_holding []) (trickle 2 ''OOOK'' @ [])
               = Some (UART_SUCCESS, s', [])"
    by (elim exE conjE)
  with m4 have "UART_WaitForString (Some ''OK'') 3 (rx_holding []) (trickle 2 ''OOOK'' @ [])
                  = Some (UART_SUCCESS, s', []) \<and> uwTick s' = 8"
    by (simp add: t0)
  then have a: "\<exists>s'. UART_WaitForString (Some ''OK'') 3 (rx_holding []) (trickle 2 ''OOOK'' @ [])
            = Some (UART_SUCCESS, s', []) \<and> uwTick s' = 8"
    by (rule exI)
  note T3 = wait_for_string_progress_timeout [OF h nm3, of "[]"]
  from T3 [THEN conjunct2, THEN mp, OF m3] obtain s''
    where "UART_WaitForString (Some ''OK'') 3 (rx_holding [])
             (trickle 2 ''OOO'' @ replicate (unat (3 :: uint32_t)) SysTick @ [])
            = Some (UART_ERROR_TIMEOUT, s'', [])"
    and "uwTick s'' = uwTick (rx_holding []) + of_nat (2 * length ''OOO'') + 3"
    by (elim exE conjE)
  then have "UART_WaitForString (Some ''OK'') 3 (rx_holding [])
             (trickle 2 ''OOO'' @ replicate (unat (3 :: uint32_t)) SysTick @ [])
            = Some (UART_ERROR_TIMEOUT, s'', []) \<and> uwTick s'' = 9"
    by (simp add: t0)
  then have b: "\<exists>s''. UART_WaitForString (Some ''OK'') 3 (rx_holding [])
             (trickle 2 ''OOO'' @ replicate (unat (3 :: uint32_t)) SysTick @ [])
            = Some (UART_ERROR_TIMEOUT, s'', []) \<and> uwTick s'' = 9"
    by (rule exI)
  from h f a b show ?thesis by (intro conjI)
qed

end
